theory Spec2Isabelle
  imports Main "HOL-Library.Sublist"
begin

section \<open>Python strings\<close>

text \<open>
  A Python \<^verbatim>\<open>str\<close> is modelled as a \<^typ>\<open>string\<close>; a character stands for the code
  point of the same number, so the model covers the code points 0 to 255.  On that range
  \<^verbatim>\<open>str.isspace\<close> (which both \<^verbatim>\<open>str.strip\<close> and the regular expression class
  \<^verbatim>\<open>\s\<close> use) holds for 9 to 13, 28 to 32, 133 and 160, and the only decimal
  digits (\<^verbatim>\<open>\d\<close>, \<^verbatim>\<open>int()\<close>) are 0 to 9.
\<close>

abbreviation NL :: char where
  "NL \<equiv> CHR 0x0A"

definition is_space :: "char \<Rightarrow> bool" where
  "is_space c =
     (let n = (of_char c :: nat)
      in (9 \<le> n \<and> n \<le> 13) \<or> (28 \<le> n \<and> n \<le> 32) \<or> n = 133 \<or> n = 160)"

definition is_digit :: "char \<Rightarrow> bool" where
  "is_digit c = (let n = (of_char c :: nat) in 48 \<le> n \<and> n \<le> 57)"

text \<open>\<^verbatim>\<open>s.strip()\<close>: leading and trailing whitespace removed.\<close>

definition py_strip :: "string \<Rightarrow> string" where
  "py_strip s = rev (dropWhile is_space (rev (dropWhile is_space s)))"

subsection \<open>The three substitutions of \<^verbatim>\<open>clean_text\<close>\<close>

text \<open>
  \<^verbatim>\<open>re.sub(r'\s+', ' ', text)\<close>: scanning from the left, every maximal run of
  whitespace is replaced by one space.
\<close>

function sub_whitespace :: "string \<Rightarrow> string" where
  "sub_whitespace [] = []"
| "sub_whitespace (c # cs) =
     (if is_space c then CHR '' '' # sub_whitespace (dropWhile is_space cs)
      else c # sub_whitespace cs)"
  by pat_completeness auto
termination
  by (relation "measure length") (auto simp: length_dropWhile_le less_Suc_eq_le)

text \<open>
  \<^verbatim>\<open>re.sub(r'\n\d+\n', '\n', text)\<close>: a newline, the longest run of digits (at
  least one) and a newline are replaced by one newline; the scan goes on behind the
  match, so the closing newline of a match opens no other.
\<close>

function sub_page_numbers :: "string \<Rightarrow> string" where
  "sub_page_numbers [] = []"
| "sub_page_numbers (c # cs) =
     (if c = NL \<and> takeWhile is_digit cs \<noteq> [] \<and> dropWhile is_digit cs \<noteq> []
         \<and> hd (dropWhile is_digit cs) = NL
      then NL # sub_page_numbers (tl (dropWhile is_digit cs))
      else c # sub_page_numbers cs)"
  by pat_completeness auto
termination
proof (relation "measure length")
  show "wf (measure length)" by simp
next
  fix c :: char and cs :: string
  have "length (tl (dropWhile is_digit cs)) \<le> length cs"
    using length_dropWhile_le [of is_digit cs] by simp
  then show "(tl (dropWhile is_digit cs), c # cs) \<in> measure length" by simp
next
  fix c :: char and cs :: string
  show "(cs, c # cs) \<in> measure length" by simp
qed

text \<open>
  \<^verbatim>\<open>re.sub(r'\n{3,}', '\n\n', text)\<close>: a maximal run of three or more newlines
  becomes two.
\<close>

function sub_newlines :: "string \<Rightarrow> string" where
  "sub_newlines [] = []"
| "sub_newlines (c # cs) =
     (if 3 \<le> length (takeWhile (\<lambda>x. x = NL) (c # cs))
      then NL # NL # sub_newlines (dropWhile (\<lambda>x. x = NL) (c # cs))
      else c # sub_newlines cs)"
  by pat_completeness auto
termination
proof (relation "measure length")
  show "wf (measure length)" by simp
next
  fix c :: char and cs :: string
  assume "3 \<le> length (takeWhile (\<lambda>x. x = NL) (c # cs))"
  then have "c = NL" by (auto split: if_splits)
  then have "length (dropWhile (\<lambda>x. x = NL) (c # cs)) \<le> length cs"
    by (simp add: length_dropWhile_le)
  then show "(dropWhile (\<lambda>x. x = NL) (c # cs), c # cs) \<in> measure length" by simp
next
  fix c :: char and cs :: string
  show "(cs, c # cs) \<in> measure length" by simp
qed

text \<open>\<^verbatim>\<open>utils/helpers.py\<close>, \<^verbatim>\<open>clean_text\<close>.\<close>

definition clean_text :: "string \<Rightarrow> string" where
  "clean_text txt = py_strip (sub_newlines (sub_page_numbers (sub_whitespace txt)))"

text \<open>
  What the claims call whitespace-free at the ends, and free of adjacent whitespace.
\<close>

definition no_outer_space :: "string \<Rightarrow> bool" where
  "no_outer_space s = (s = [] \<or> (\<not> is_space (hd s) \<and> \<not> is_space (last s)))"

fun no_adjacent_space :: "string \<Rightarrow> bool" where
  "no_adjacent_space [] = True"
| "no_adjacent_space [c] = True"
| "no_adjacent_space (c # d # cs) =
     (\<not> (is_space c \<and> is_space d) \<and> no_adjacent_space (d # cs))"

definition only_blanks :: "string \<Rightarrow> bool" where
  "only_blanks s = (\<forall>c\<in>set s. is_space c \<longrightarrow> c = CHR '' '')"

subsection \<open>Splitting, slicing and \<^verbatim>\<open>int()\<close>\<close>

text \<open>
  \<^verbatim>\<open>find_sub sep s\<close> cuts \<open>s\<close> at the leftmost occurrence of \<open>sep\<close>: the text before
  it and the text behind it (\<^verbatim>\<open>s.partition(sep)\<close>, \<^verbatim>\<open>sep in s\<close>).
\<close>

fun find_sub :: "string \<Rightarrow> string \<Rightarrow> (string \<times> string) option" where
  "find_sub sep [] = (if sep = [] then Some ([], []) else None)"
| "find_sub sep (c # cs) =
     (if prefix sep (c # cs) then Some ([], drop (length sep) (c # cs))
      else (case find_sub sep cs of
              None \<Rightarrow> None
            | Some (before, behind) \<Rightarrow> Some (c # before, behind)))"

text \<open>
  \<^verbatim>\<open>s.split(sep)\<close> for a separator that is not empty (Python raises
  \<^verbatim>\<open>ValueError\<close> on an empty one; every separator of this program is a literal):
  the pieces between the occurrences of \<open>sep\<close>, found from the left without overlap.
\<close>

function py_split :: "string \<Rightarrow> string \<Rightarrow> string list" where
  "py_split sep s =
     (case find_sub sep s of
        None \<Rightarrow> [s]
      | Some (before, behind) \<Rightarrow>
          if sep = [] then [s] else before # py_split sep behind)"
  by pat_completeness auto

lemma find_sub_length:
  "find_sub sep s = Some (before, behind) \<Longrightarrow> length before + length sep + length behind = length s"
proof (induction s arbitrary: before)
  case Nil
  then show ?case by (simp split: if_splits)
next
  case (Cons c cs)
  show ?case
  proof (cases "prefix sep (c # cs)")
    case True
    then have "length sep \<le> length (c # cs)" by (rule prefix_length_le)
    with True Cons.prems show ?thesis by auto
  next
    case False
    with Cons.prems obtain b where "find_sub sep cs = Some (b, behind)" and "before = c # b"
      by (auto split: option.splits)
    with Cons.IH [of b] show ?thesis by simp
  qed
qed

termination py_split
proof (relation "measure (\<lambda>(sep, s). length s)")
  show "wf (measure (\<lambda>(sep, s). length s))" by simp
next
  fix sep s :: string and x2 :: "string \<times> string" and before behind :: string
  assume "find_sub sep s = Some x2" "(before, behind) = x2" "sep \<noteq> []"
  then have "length before + length sep + length behind = length s" and "0 < length sep"
    by (simp_all add: find_sub_length)
  then have "length behind < length s" by linarith
  then show "((sep, behind), (sep, s)) \<in> measure (\<lambda>(sep, s). length s)" by simp
qed

declare py_split.simps [simp del]

text \<open>\<^verbatim>\<open>s.split(sep, 1)\<close>: at most one cut.\<close>

definition py_split1 :: "string \<Rightarrow> string \<Rightarrow> string list" where
  "py_split1 sep s =
     (case find_sub sep s of None \<Rightarrow> [s] | Some (before, behind) \<Rightarrow> [before, behind])"

text \<open>\<^verbatim>\<open>sep in s\<close>.\<close>

definition py_contains :: "string \<Rightarrow> string \<Rightarrow> bool" where
  "py_contains sep s = (find_sub sep s \<noteq> None)"

text \<open>\<^verbatim>\<open>xs[i]\<close> for an index that is not negative; \<open>None\<close> is \<^verbatim>\<open>IndexError\<close>.\<close>

fun py_index :: "'a list \<Rightarrow> nat \<Rightarrow> 'a option" where
  "py_index [] i = None"
| "py_index (x # xs) 0 = Some x"
| "py_index (x # xs) (Suc i) = py_index xs i"

text \<open>
  The slices \<^verbatim>\<open>s[:n]\<close> and \<^verbatim>\<open>s[k:]\<close> for any Python integer: a negative bound
  counts from the end, and a bound outside the string is clipped.
\<close>

definition slice_to :: "string \<Rightarrow> int \<Rightarrow> string" where
  "slice_to s n = (if 0 \<le> n then take (nat n) s else take (nat (int (length s) + n)) s)"

definition slice_from :: "string \<Rightarrow> int \<Rightarrow> string" where
  "slice_from s k = (if 0 \<le> k then drop (nat k) s else drop (nat (int (length s) + k)) s)"

text \<open>
  \<^verbatim>\<open>int(s)\<close> on a string.  The whitespace \<^verbatim>\<open>int\<close> ignores around the number is
  narrower than that of \<^verbatim>\<open>str.strip\<close>: the code points 9 to 13, 32, 133 and 160, but
  not 28 to 31.  A sign may lead, and the digits may be grouped by single underscores.
  A number of more than 4300 digits (the interpreter's default limit; leading zeros
  count, the sign and the underscores do not) is refused.  \<open>None\<close> is
  \<^verbatim>\<open>ValueError\<close>.
\<close>

definition is_int_space :: "char \<Rightarrow> bool" where
  "is_int_space c =
     (let n = (of_char c :: nat)
      in (9 \<le> n \<and> n \<le> 13) \<or> n = 32 \<or> n = 133 \<or> n = 160)"

definition int_strip :: "string \<Rightarrow> string" where
  "int_strip s = rev (dropWhile is_int_space (rev (dropWhile is_int_space s)))"

fun digit_groups :: "string \<Rightarrow> bool" where
  "digit_groups [] = False"
| "digit_groups [c] = is_digit c"
| "digit_groups (c # d # cs) =
     (is_digit c \<and> (if d = CHR ''_'' then digit_groups cs else digit_groups (d # cs)))"

definition digit_value :: "char \<Rightarrow> int" where
  "digit_value c = int (of_char c) - 48"

definition decimal_value :: "string \<Rightarrow> int" where
  "decimal_value ds = foldl (\<lambda>a c. 10 * a + digit_value c) 0 (filter is_digit ds)"

definition int_max_str_digits :: nat where
  "int_max_str_digits = 4300"

definition parse_digits :: "string \<Rightarrow> int option" where
  "parse_digits ds =
     (if digit_groups ds \<and> length (filter is_digit ds) \<le> int_max_str_digits
      then Some (decimal_value ds) else None)"

definition py_int :: "string \<Rightarrow> int option" where
  "py_int s =
     (case int_strip s of
        [] \<Rightarrow> None
      | c # r \<Rightarrow>
          if c = CHR ''-'' then map_option uminus (parse_digits r)
          else if c = CHR ''+'' then parse_digits r
          else parse_digits (c # r))"

section \<open>\<^verbatim>\<open>src/document_processor.py\<close>: chunking\<close>

text \<open>The exceptions the models raise, as values.\<close>

datatype py_error =
    KeyError string
  | NameError string
  | ValueError string
  | FileNotFoundError string
  | LibraryError string

text \<open>
  A chunk dictionary.  The metadata dictionary maps keys to values of any type \<open>'v\<close>;
  a chunk copies two of them.
\<close>

record 'v chunk =
  ck_text :: string
  ck_chunk_id :: int
  ck_book_name :: 'v
  ck_page :: int
  ck_source :: 'v

type_synonym 'v metadata = "string \<rightharpoonup> 'v"

text \<open>
  The dictionary display of \<^verbatim>\<open>chunks.append({...})\<close>: \<^verbatim>\<open>metadata['book_name']\<close> and
  \<^verbatim>\<open>metadata['file_path']\<close> raise \<^verbatim>\<open>KeyError\<close> on a missing key, in this order.
\<close>

definition make_chunk :: "'v metadata \<Rightarrow> string \<Rightarrow> int \<Rightarrow> int \<Rightarrow> py_error + 'v chunk" where
  "make_chunk meta txt cid page_num =
     (case meta ''book_name'' of
        None \<Rightarrow> Inl (KeyError ''book_name'')
      | Some b \<Rightarrow>
          (case meta ''file_path'' of
             None \<Rightarrow> Inl (KeyError ''file_path'')
           | Some f \<Rightarrow>
               Inr \<lparr>ck_text = txt, ck_chunk_id = cid, ck_book_name = b,
                    ck_page = page_num, ck_source = f\<rparr>))"

text \<open>
  The inner \<^verbatim>\<open>while len(current_chunk) >= char_chunk_size\<close> loop.  It need not end (an
  overlap equal to the chunk size never shortens \<^verbatim>\<open>current_chunk\<close>), so it is a
  partial function: \<open>None\<close> is a loop that runs forever.
\<close>

partial_function (option) chunk_while ::
  "int \<Rightarrow> int \<Rightarrow> 'v metadata \<Rightarrow> int \<Rightarrow> 'v chunk list \<Rightarrow> string \<Rightarrow> int
     \<Rightarrow> (py_error + 'v chunk list \<times> string \<times> int) option"
where
  "chunk_while char_chunk_size char_overlap meta page_num chunks current_chunk chunk_id =
     (if char_chunk_size \<le> int (length current_chunk) then
        (case make_chunk meta (py_strip (slice_to current_chunk char_chunk_size))
                chunk_id page_num of
           Inl e \<Rightarrow> Some (Inl e)
         | Inr ch \<Rightarrow>
             chunk_while char_chunk_size char_overlap meta page_num (chunks @ [ch])
               (slice_from current_chunk (char_chunk_size - char_overlap)) (chunk_id + 1))
      else Some (Inr (chunks, current_chunk, chunk_id)))"

declare chunk_while.simps [code]

text \<open>
  The body of the \<^verbatim>\<open>try\<close> block for one page section: the page number before the
  first \<^verbatim>\<open>' ---'\<close>, and the page text behind the first \<^verbatim>\<open>'---\n'\<close> (the whole section
  when there is none).  \<open>None\<close> is the \<^verbatim>\<open>ValueError\<close> or \<^verbatim>\<open>IndexError\<close> that makes
  the loop \<^verbatim>\<open>continue\<close>; only the \<^verbatim>\<open>ValueError\<close> of \<^verbatim>\<open>int\<close> can arise, since a
  split has a first piece, and a second one where the separator occurs.
\<close>

definition parse_page_section :: "string \<Rightarrow> (int \<times> string) option" where
  "parse_page_section page_section =
     (case py_index (py_split '' ---'' page_section) 0 of
        None \<Rightarrow> None
      | Some page_num_str \<Rightarrow>
          (case py_int page_num_str of
             None \<Rightarrow> None
           | Some page_num \<Rightarrow>
               (if py_contains (''---'' @ [NL]) page_section
                then (case py_index (py_split1 (''---'' @ [NL]) page_section) 1 of
                        None \<Rightarrow> None
                      | Some page_text \<Rightarrow> Some (page_num, page_text))
                else Some (page_num, page_section))))"

text \<open>
  The \<^verbatim>\<open>for page_section in pages[1:]\<close> loop.  Its state is \<^verbatim>\<open>chunks\<close>,
  \<^verbatim>\<open>current_chunk\<close>, \<^verbatim>\<open>chunk_id\<close> and \<^verbatim>\<open>page_num\<close>; the last is unbound (\<open>None\<close>)
  until a page section has been parsed.
\<close>

fun chunk_pages ::
  "int \<Rightarrow> int \<Rightarrow> 'v metadata \<Rightarrow> string list
     \<Rightarrow> 'v chunk list \<times> string \<times> int \<times> int option
     \<Rightarrow> (py_error + 'v chunk list \<times> string \<times> int \<times> int option) option"
where
  "chunk_pages char_chunk_size char_overlap meta [] state = Some (Inr state)"
| "chunk_pages char_chunk_size char_overlap meta (page_section # rest)
       (chunks, current_chunk, chunk_id, page_num) =
     (case parse_page_section page_section of
        None \<Rightarrow>
          chunk_pages char_chunk_size char_overlap meta rest
            (chunks, current_chunk, chunk_id, page_num)
      | Some (n, page_text) \<Rightarrow>
          (case chunk_while char_chunk_size char_overlap meta n chunks
                  (current_chunk @ page_text) chunk_id of
             None \<Rightarrow> None
           | Some (Inl e) \<Rightarrow> Some (Inl e)
           | Some (Inr (chunks', current_chunk', chunk_id')) \<Rightarrow>
               chunk_pages char_chunk_size char_overlap meta rest
                 (chunks', current_chunk', chunk_id', Some n)))"

text \<open>
  \<^verbatim>\<open>DocumentProcessor.chunk_text\<close>, with \<^verbatim>\<open>self.chunk_size\<close> and
  \<^verbatim>\<open>self.chunk_overlap\<close> as arguments.  The result is \<open>None\<close> when the method does not
  return, \<open>Some (Inl e)\<close> when it raises \<open>e\<close>, and \<open>Some (Inr chunks)\<close> when it returns
  \<open>chunks\<close>.
\<close>

definition chunk_text ::
  "int \<Rightarrow> int \<Rightarrow> string \<Rightarrow> 'v metadata \<Rightarrow> (py_error + 'v chunk list) option"
where
  "chunk_text chunk_size chunk_overlap txt meta =
     (let char_chunk_size = chunk_size * 4;
          char_overlap = chunk_overlap * 4;
          pages = py_split ''--- Page '' txt
      in case chunk_pages char_chunk_size char_overlap meta (drop 1 pages) ([], [], 0, None) of
           None \<Rightarrow> None
         | Some (Inl e) \<Rightarrow> Some (Inl e)
         | Some (Inr (chunks, current_chunk, chunk_id, page_num)) \<Rightarrow>
             (if py_strip current_chunk \<noteq> [] then
                (case page_num of
                   None \<Rightarrow> Some (Inl (NameError ''page_num''))
                 | Some p \<Rightarrow>
                     (case make_chunk meta (py_strip current_chunk) chunk_id p of
                        Inl e \<Rightarrow> Some (Inl e)
                      | Inr ch \<Rightarrow> Some (Inr (chunks @ [ch]))))
              else Some (Inr chunks)))"

subsection \<open>Fixed-size slicing with a fixed overlap, as the specification words it\<close>

text \<open>
  The windows of a text: while at least \<open>width\<close> characters are left, the next window is
  the first \<open>width\<close> of them and the text moves on by \<open>width - overlap\<close>; what is left
  at the end is the last (short) window.
\<close>

function sliding_windows :: "nat \<Rightarrow> nat \<Rightarrow> string \<Rightarrow> string list" where
  "sliding_windows width overlap s =
     (if overlap < width \<and> width \<le> length s
      then take width s # sliding_windows width overlap (drop (width - overlap) s)
      else [s])"
  by pat_completeness auto
termination
  by (relation "measure (\<lambda>(width, overlap, s). length s)") auto

declare sliding_windows.simps [simp del]

text \<open>
  The text \<^verbatim>\<open>chunk_text\<close> accumulates in \<^verbatim>\<open>current_chunk\<close>: the page texts of the
  page sections that parse, in order.
\<close>

definition page_texts :: "string list \<Rightarrow> string" where
  "page_texts ps = concat (map snd (List.map_filter parse_page_section ps))"

definition accumulated_text :: "string \<Rightarrow> string" where
  "accumulated_text txt = page_texts (drop 1 (py_split ''--- Page '' txt))"

text \<open>The chunks made of a list of windows, numbered from \<open>cid\<close>.\<close>

fun window_chunks :: "'v \<Rightarrow> 'v \<Rightarrow> int \<Rightarrow> int \<Rightarrow> string list \<Rightarrow> 'v chunk list" where
  "window_chunks b f p cid [] = []"
| "window_chunks b f p cid (w # ws) =
     \<lparr>ck_text = py_strip w, ck_chunk_id = cid, ck_book_name = b, ck_page = p, ck_source = f\<rparr>
       # window_chunks b f p (cid + 1) ws"

text \<open>A metadata dictionary for the examples.\<close>

definition book_meta :: "string metadata" where
  "book_meta = [''book_name'' \<mapsto> ''B'', ''file_path'' \<mapsto> ''p.pdf'']"


text \<open>
  The invariant of the list \<^verbatim>\<open>chunk_text\<close> returns: the chunk at position \<open>i\<close> has the id
  \<open>i\<close>, a text without whitespace at its ends, and the book name and file path of the
  metadata.
\<close>

definition well_formed_chunks :: "'v metadata \<Rightarrow> 'v chunk list \<Rightarrow> bool" where
  "well_formed_chunks meta chunks =
     (\<forall>i<length chunks.
        ck_chunk_id (chunks ! i) = int i
        \<and> no_outer_space (ck_text (chunks ! i))
        \<and> meta ''book_name'' = Some (ck_book_name (chunks ! i))
        \<and> meta ''file_path'' = Some (ck_source (chunks ! i)))"

text \<open>No chunk has an empty text.\<close>

definition texts_not_empty :: "'v chunk list \<Rightarrow> bool" where
  "texts_not_empty chunks = (\<forall>c\<in>set chunks. ck_text c \<noteq> [])"

text \<open>
  A piece of a cleaned text: no two adjacent whitespace characters, no newline, and no
  whitespace at its start.
\<close>

definition clean_piece :: "string \<Rightarrow> bool" where
  "clean_piece s = (no_adjacent_space s \<and> NL \<notin> set s \<and> (s = [] \<or> \<not> is_space (hd s)))"


section \<open>\<^verbatim>\<open>src/document_processor.py\<close>: books and batches\<close>

text \<open>
  Values of dictionaries whose values are of mixed type (the metadata of a document, an
  entry of the book tracker, the metadata of a retrieved chunk).
\<close>

datatype pyval = PStr string | PInt int | PBool bool | PNone

text \<open>The decimal numeral of a natural number, as an f-string prints it.\<close>

definition digit_char :: "nat \<Rightarrow> char" where
  "digit_char d = char_of (48 + d)"

function show_nat :: "nat \<Rightarrow> string" where
  "show_nat n = (if n < 10 then [digit_char n] else show_nat (n div 10) @ [digit_char (n mod 10)])"
  by pat_completeness auto
termination
  by (relation "measure id") auto

declare show_nat.simps [simp del]

text \<open>\<^verbatim>\<open>config/settings.py\<close>: the chunking parameters, in tokens.\<close>

definition CHUNK_SIZE :: int where
  "CHUNK_SIZE = 1000"

definition CHUNK_OVERLAP :: int where
  "CHUNK_OVERLAP = 200"

text \<open>
  \<^verbatim>\<open>DocumentProcessor.__init__\<close>: \<^verbatim>\<open>chunk_size or settings.CHUNK_SIZE\<close> takes the
  setting when the argument is \<^verbatim>\<open>None\<close> or 0.  The result is the pair of
  \<^verbatim>\<open>self.chunk_size\<close> and \<^verbatim>\<open>self.chunk_overlap\<close>.
\<close>

definition py_or :: "int option \<Rightarrow> int \<Rightarrow> int" where
  "py_or x d = (case x of None \<Rightarrow> d | Some n \<Rightarrow> if n = 0 then d else n)"

definition document_processor_init :: "int option \<Rightarrow> int option \<Rightarrow> int \<times> int" where
  "document_processor_init chunk_size chunk_overlap =
     (py_or chunk_size CHUNK_SIZE, py_or chunk_overlap CHUNK_OVERLAP)"

text \<open>
  What the program asks of the PDF library and of the file system: whether a path
  exists, the document behind a path (the text of each page and the document's own
  metadata, or the exception raised while opening or reading it), the stem and the
  string of a path, and the \<^verbatim>\<open>*.pdf\<close> files of a directory (\<open>None\<close> when the directory
  does not exist).
\<close>

record pdf_document =
  doc_pages :: "string list"
  doc_metadata :: "string \<rightharpoonup> pyval"

record doc_env =
  path_exists :: "string \<Rightarrow> bool"
  fitz_open :: "string \<Rightarrow> py_error + pdf_document"
  path_stem :: "string \<Rightarrow> string"
  path_string :: "string \<Rightarrow> string"
  glob_pdf :: "string \<Rightarrow> string list option"
  BOOKS_DIR :: string

text \<open>
  The page loop of \<^verbatim>\<open>load_pdf\<close>:
  \<^verbatim>\<open>full_text += f"\n--- Page {page_num} ---\n{text}"\<close>, pages numbered from
  \<open>page_num\<close>.
\<close>

fun add_pages :: "nat \<Rightarrow> string list \<Rightarrow> string \<Rightarrow> string" where
  "add_pages page_num [] full_text = full_text"
| "add_pages page_num (t # ts) full_text =
     add_pages (Suc page_num) ts
       (full_text @ [NL] @ ''--- Page '' @ show_nat page_num @ '' ---'' @ [NL] @ t)"

definition dict_get :: "(string \<rightharpoonup> 'a) \<Rightarrow> string \<Rightarrow> 'a \<Rightarrow> 'a" where
  "dict_get d k dflt = (case d k of None \<Rightarrow> dflt | Some v \<Rightarrow> v)"

definition load_pdf :: "doc_env \<Rightarrow> string \<Rightarrow> py_error + string \<times> pyval metadata" where
  "load_pdf env file_path =
     (if \<not> path_exists env file_path then Inl (FileNotFoundError file_path)
      else (case fitz_open env file_path of
              Inl e \<Rightarrow> Inl e
            | Inr doc \<Rightarrow>
                (let full_text = add_pages 1 (doc_pages doc) [];
                     meta = [''book_name'' \<mapsto> PStr (path_stem env file_path),
                             ''file_path'' \<mapsto> PStr (path_string env file_path),
                             ''total_pages'' \<mapsto> PInt (int (length (doc_pages doc))),
                             ''title'' \<mapsto>
                                dict_get (doc_metadata doc) ''title''
                                  (PStr (path_stem env file_path)),
                             ''author'' \<mapsto>
                                dict_get (doc_metadata doc) ''author'' (PStr ''Unknown'')]
                 in Inr (clean_text full_text, meta))))"

text \<open>
  \<^verbatim>\<open>process_book\<close>: load, then chunk; an exception is logged and raised again.
\<close>

definition process_book ::
  "doc_env \<Rightarrow> int \<Rightarrow> int \<Rightarrow> string \<Rightarrow> (py_error + pyval chunk list) option"
where
  "process_book env chunk_size chunk_overlap file_path =
     (case load_pdf env file_path of
        Inl e \<Rightarrow> Some (Inl e)
      | Inr (txt, meta) \<Rightarrow> chunk_text chunk_size chunk_overlap txt meta)"

text \<open>
  The loop of \<^verbatim>\<open>process_books_directory\<close> over \<^verbatim>\<open>pdf_files\<close>, with its state
  \<^verbatim>\<open>all_chunks\<close>, \<^verbatim>\<open>successful\<close> and \<^verbatim>\<open>failed\<close>.  An exception of
  \<^verbatim>\<open>process_book\<close> is caught: \<^verbatim>\<open>failed += 1; continue\<close>.  The fourth component
  of the state is not a variable of the code: it records the calls of
  \<^verbatim>\<open>process_book\<close>, in order, by the file each was made on.
\<close>

fun process_books_loop ::
  "doc_env \<Rightarrow> int \<Rightarrow> int \<Rightarrow> string list \<Rightarrow> pyval chunk list \<times> nat \<times> nat \<times> string list
     \<Rightarrow> (pyval chunk list \<times> nat \<times> nat \<times> string list) option"
where
  "process_books_loop env chunk_size chunk_overlap [] state = Some state"
| "process_books_loop env chunk_size chunk_overlap (pdf_file # rest)
       (all_chunks, successful, failed, calls) =
     (case process_book env chunk_size chunk_overlap pdf_file of
        None \<Rightarrow> None
      | Some (Inl e) \<Rightarrow>
          process_books_loop env chunk_size chunk_overlap rest
            (all_chunks, successful, failed + 1, calls @ [pdf_file])
      | Some (Inr chunks) \<Rightarrow>
          process_books_loop env chunk_size chunk_overlap rest
            (all_chunks @ chunks, successful + 1, failed, calls @ [pdf_file]))"

text \<open>
  \<^verbatim>\<open>books_dir = Path(directory) if directory else settings.BOOKS_DIR\<close>: the setting
  when the argument is \<^verbatim>\<open>None\<close> or the empty string.
\<close>

definition books_dir_of :: "doc_env \<Rightarrow> string option \<Rightarrow> string" where
  "books_dir_of env directory =
     (case directory of
        None \<Rightarrow> BOOKS_DIR env
      | Some d \<Rightarrow> if d = [] then BOOKS_DIR env else d)"

text \<open>
  \<^verbatim>\<open>process_books_directory\<close>: \<^verbatim>\<open>FileNotFoundError\<close> when the directory does not
  exist, \<^verbatim>\<open>ValueError\<close> when it holds no PDF file, and otherwise \<^verbatim>\<open>all_chunks\<close> after
  the loop (the two counters are only logged).
\<close>

definition process_books_directory ::
  "doc_env \<Rightarrow> int \<Rightarrow> int \<Rightarrow> string option \<Rightarrow> (py_error + pyval chunk list) option"
where
  "process_books_directory env chunk_size chunk_overlap directory =
     (let books_dir = books_dir_of env directory
      in case glob_pdf env books_dir of
           None \<Rightarrow> Some (Inl (FileNotFoundError books_dir))
         | Some pdf_files \<Rightarrow>
             if pdf_files = [] then Some (Inl (ValueError books_dir))
             else (case process_books_loop env chunk_size chunk_overlap pdf_files
                          ([], 0, 0, []) of
                     None \<Rightarrow> None
                   | Some (all_chunks, successful, failed, calls) \<Rightarrow> Some (Inr all_chunks)))"

text \<open>
  What one book contributes to a batch, whether its processing raises, and whether it
  returns or raises at all.
\<close>

definition book_chunks :: "doc_env \<Rightarrow> int \<Rightarrow> int \<Rightarrow> string \<Rightarrow> pyval chunk list" where
  "book_chunks env chunk_size chunk_overlap pdf_file =
     (case process_book env chunk_size chunk_overlap pdf_file of
        Some (Inr chunks) \<Rightarrow> chunks
      | _ \<Rightarrow> [])"

definition book_fails :: "doc_env \<Rightarrow> int \<Rightarrow> int \<Rightarrow> string \<Rightarrow> bool" where
  "book_fails env chunk_size chunk_overlap pdf_file =
     (case process_book env chunk_size chunk_overlap pdf_file of
        Some (Inl e) \<Rightarrow> True
      | _ \<Rightarrow> False)"

definition book_ends :: "doc_env \<Rightarrow> int \<Rightarrow> int \<Rightarrow> string \<Rightarrow> bool" where
  "book_ends env chunk_size chunk_overlap pdf_file =
     (process_book env chunk_size chunk_overlap pdf_file \<noteq> None)"

text \<open>A directory of two books for the examples: the first cannot be opened.\<close>

definition two_books :: doc_env where
  "two_books =
     \<lparr>path_exists = (\<lambda>p. True),
      fitz_open = (\<lambda>p. if p = ''books/b.pdf''
                        then Inr \<lparr>doc_pages = [''ab  cd''], doc_metadata = Map.empty\<rparr>
                        else Inl (LibraryError ''cannot open'')),
      path_stem = (\<lambda>p. if p = ''books/b.pdf'' then ''b'' else ''a''),
      path_string = (\<lambda>p. p),
      glob_pdf = (\<lambda>d. if d = ''books'' then Some [''books/a.pdf'', ''books/b.pdf''] else None),
      BOOKS_DIR = ''books''\<rparr>"

section \<open>\<^verbatim>\<open>src/book_manager.py\<close>: the book tracker\<close>

text \<open>
  The contents of a file are bytes, each a \<^typ>\<open>char\<close>.  The libraries are parameters:
  \<^verbatim>\<open>hashlib\<close> by the function from all the bytes fed to an MD5 object to its hex digest,
  \<^verbatim>\<open>pathlib\<close> by the name and the string of a path.  A file system maps a path to the
  contents of the file there.
\<close>

type_synonym bytes = "char list"

record libs =
  md5_hexdigest :: "bytes \<Rightarrow> string"
  path_name :: "string \<Rightarrow> string"
  path_to_str :: "string \<Rightarrow> string"

type_synonym file_system = "string \<rightharpoonup> bytes"

text \<open>
  An entry of the tracker is a dictionary; \<^verbatim>\<open>processed_books\<close> maps file names to
  entries.  The tracker file holds nothing, a saved mapping with its time stamp, or text
  that does not parse (a write that failed half way).
\<close>

type_synonym entry = "string \<rightharpoonup> pyval"

type_synonym tracker = "string \<rightharpoonup> entry"

datatype tracker_file = Absent | Saved tracker string | Unreadable

record book_manager =
  processed_books :: tracker
  tracker_file :: tracker_file

text \<open>
  What the outside world contributes to one call: the result of
  \<^verbatim>\<open>datetime.now().isoformat()\<close> for the entry and for the file, and how the write of
  the tracker file ends.
\<close>

datatype write_outcome = Written | Not_opened | Torn

record call_env =
  processed_date :: string
  last_updated :: string
  write_result :: write_outcome

text \<open>\<^verbatim>\<open>_load_tracker\<close> and \<^verbatim>\<open>__init__\<close>.\<close>

definition load_tracker :: "tracker_file \<Rightarrow> tracker" where
  "load_tracker f = (case f of Saved books ts \<Rightarrow> books | _ \<Rightarrow> Map.empty)"

definition book_manager_init :: "tracker_file \<Rightarrow> book_manager" where
  "book_manager_init f = \<lparr>processed_books = load_tracker f, tracker_file = f\<rparr>"

text \<open>
  \<^verbatim>\<open>_save_tracker\<close>: every exception is caught and logged.  A write that fails before
  the file is opened leaves it as it was.
\<close>

definition save_tracker :: "call_env \<Rightarrow> book_manager \<Rightarrow> book_manager" where
  "save_tracker ce m =
     (case write_result ce of
        Written \<Rightarrow> m\<lparr>tracker_file := Saved (processed_books m) (last_updated ce)\<rparr>
      | Not_opened \<Rightarrow> m
      | Torn \<Rightarrow> m\<lparr>tracker_file := Unreadable\<rparr>)"

text \<open>
  \<^verbatim>\<open>_calculate_file_hash\<close>: the file is read in pieces of 4096 bytes until a read
  returns nothing, and each piece is fed to the MD5 object, whose state is the bytes fed
  so far.
\<close>

function hash_chunks :: "bytes \<Rightarrow> bytes \<Rightarrow> bytes" where
  "hash_chunks unread fed =
     (if take 4096 unread = [] then fed
      else hash_chunks (drop 4096 unread) (fed @ take 4096 unread))"
  by pat_completeness auto
termination
  by (relation "measure (\<lambda>(unread, fed). length unread)") auto

declare hash_chunks.simps [simp del]

definition calculate_file_hash :: "libs \<Rightarrow> file_system \<Rightarrow> string \<Rightarrow> py_error + string" where
  "calculate_file_hash lib fs file_path =
     (case fs file_path of
        None \<Rightarrow> Inl (FileNotFoundError file_path)
      | Some content \<Rightarrow> Inr (md5_hexdigest lib (hash_chunks content [])))"

text \<open>\<^verbatim>\<open>is_processed\<close>.\<close>

definition is_processed :: "libs \<Rightarrow> file_system \<Rightarrow> tracker \<Rightarrow> string \<Rightarrow> py_error + bool" where
  "is_processed lib fs books file_path =
     (let file_name = path_name lib file_path
      in case books file_name of
           None \<Rightarrow> Inr False
         | Some e \<Rightarrow>
             (case calculate_file_hash lib fs file_path of
                Inl err \<Rightarrow> Inl err
              | Inr current_hash \<Rightarrow>
                  (let stored_hash = dict_get e ''file_hash'' (PStr [])
                   in Inr (PStr current_hash = stored_hash))))"

text \<open>
  \<^verbatim>\<open>mark_as_processed\<close>: the hash and then the size are read from the file (either can
  raise before anything is stored), the entry replaces the one under the file's name,
  and the tracker is saved.
\<close>

definition mark_as_processed ::
  "libs \<Rightarrow> file_system \<Rightarrow> call_env \<Rightarrow> book_manager \<Rightarrow> string \<Rightarrow> int \<Rightarrow> py_error + book_manager"
where
  "mark_as_processed lib fs ce m file_path chunk_count =
     (let file_name = path_name lib file_path
      in case calculate_file_hash lib fs file_path of
           Inl err \<Rightarrow> Inl err
         | Inr file_hash \<Rightarrow>
             (case fs file_path of
                None \<Rightarrow> Inl (FileNotFoundError file_path)
              | Some content \<Rightarrow>
                  Inr (save_tracker ce
                    (m\<lparr>processed_books := (processed_books m)(file_name \<mapsto>
                         [''file_path'' \<mapsto> PStr (path_to_str lib file_path),
                          ''file_hash'' \<mapsto> PStr file_hash,
                          ''chunk_count'' \<mapsto> PInt chunk_count,
                          ''processed_date'' \<mapsto> PStr (processed_date ce),
                          ''file_size'' \<mapsto> PInt (int (length content))])\<rparr>))))"

text \<open>\<^verbatim>\<open>remove_book\<close>.\<close>

definition remove_book :: "call_env \<Rightarrow> book_manager \<Rightarrow> string \<Rightarrow> book_manager" where
  "remove_book ce m file_name =
     (if file_name \<in> dom (processed_books m)
      then save_tracker ce (m\<lparr>processed_books := (processed_books m)(file_name := None)\<rparr>)
      else m)"

text \<open>
  A sequence of calls on one manager.  Each call comes with the file system and the
  outside world of its moment; a \<^verbatim>\<open>mark_as_processed\<close> that raises leaves the manager
  as it was.
\<close>

datatype tracker_op = Mark string int | Remove string

fun apply_op :: "libs \<Rightarrow> book_manager \<Rightarrow> file_system \<times> call_env \<times> tracker_op \<Rightarrow> book_manager" where
  "apply_op lib m (fs, ce, Mark file_path chunk_count) =
     (case mark_as_processed lib fs ce m file_path chunk_count of
        Inl err \<Rightarrow> m
      | Inr m' \<Rightarrow> m')"
| "apply_op lib m (fs, ce, Remove file_name) = remove_book ce m file_name"

definition run_ops ::
  "libs \<Rightarrow> (file_system \<times> call_env \<times> tracker_op) list \<Rightarrow> book_manager \<Rightarrow> book_manager"
where
  "run_ops lib ops m = foldl (apply_op lib) m ops"

text \<open>
  An entry \<open>e\<close> under the key \<open>k\<close> is backed by a call of the sequence: a
  \<^verbatim>\<open>mark_as_processed\<close> of a file named \<open>k\<close>, whose contents at that moment have the
  MD5 digest and the size the entry records.
\<close>

definition backed ::
  "libs \<Rightarrow> (file_system \<times> call_env \<times> tracker_op) list \<Rightarrow> string \<Rightarrow> entry \<Rightarrow> bool"
where
  "backed lib ops k e =
     (\<exists>(fs, ce, op) \<in> set ops. \<exists>file_path chunk_count content.
        op = Mark file_path chunk_count \<and> fs file_path = Some content
        \<and> k = path_name lib file_path
        \<and> e ''file_path'' = Some (PStr (path_to_str lib file_path))
        \<and> e ''file_hash'' = Some (PStr (md5_hexdigest lib content))
        \<and> e ''file_size'' = Some (PInt (int (length content))))"

text \<open>
  Libraries for the examples: the name of a path is what follows its last slash, and
  the digest function is left open.
\<close>

definition last_component :: "string \<Rightarrow> string" where
  "last_component p = rev (takeWhile (\<lambda>c. c \<noteq> CHR ''/'') (rev p))"

definition libs_with :: "(bytes \<Rightarrow> string) \<Rightarrow> libs" where
  "libs_with md5 = \<lparr>md5_hexdigest = md5, path_name = last_component, path_to_str = (\<lambda>p. p)\<rparr>"

definition quiet :: call_env where
  "quiet = \<lparr>processed_date = ''2024-01-01T00:00:00'', last_updated = ''2024-01-01T00:00:01'',
            write_result = Written\<rparr>"

text \<open>
  A digest function for the examples that agrees with MD5 on the empty file and on the
  file of the one byte \<^verbatim>\<open>a\<close>; a sequence of one call; the entry it stores.
\<close>

definition example_md5 :: "bytes \<Rightarrow> string" where
  "example_md5 content =
     (if content = [] then ''d41d8cd98f00b204e9800998ecf8427e''
      else if content = ''a'' then ''0cc175b9c0f1b6a831c399e269772661''
      else ''00000000000000000000000000000000'')"

definition one_mark :: "(file_system \<times> call_env \<times> tracker_op) list" where
  "one_mark = [([''books/a.pdf'' \<mapsto> ''a''], quiet, Mark ''books/a.pdf'' 3)]"

definition marked_entry :: entry where
  "marked_entry = [''file_path'' \<mapsto> PStr ''books/a.pdf'',
                  ''file_hash'' \<mapsto> PStr ''0cc175b9c0f1b6a831c399e269772661'',
                  ''chunk_count'' \<mapsto> PInt 3,
                  ''processed_date'' \<mapsto> PStr ''2024-01-01T00:00:00'',
                  ''file_size'' \<mapsto> PInt 1]"

text \<open>The invariant of the tracker: every entry, in memory and saved, is backed.\<close>

definition tracked :: "libs \<Rightarrow> (file_system \<times> call_env \<times> tracker_op) list \<Rightarrow> book_manager \<Rightarrow> bool" where
  "tracked lib ops m =
     ((\<forall>k e. processed_books m k = Some e \<longrightarrow> backed lib ops k e)
      \<and> (\<forall>books ts. tracker_file m = Saved books ts \<longrightarrow> (\<forall>k e. books k = Some e \<longrightarrow> backed lib ops k e)))"


text \<open>A file system with one book.\<close>

definition fs_a :: file_system where
  "fs_a = [''books/a.pdf'' \<mapsto> ''a'']"


section \<open>\<^verbatim>\<open>utils/helpers.py\<close>: citations\<close>

text \<open>
  \<^verbatim>\<open>str(v)\<close>, as an f-string prints a value, and the truth value \<^verbatim>\<open>if v:\<close> tests.
\<close>

definition show_int :: "int \<Rightarrow> string" where
  "show_int n = (if n < 0 then CHR ''-'' # show_nat (nat (- n)) else show_nat (nat n))"

fun py_str :: "pyval \<Rightarrow> string" where
  "py_str (PStr s) = s"
| "py_str (PInt n) = show_int n"
| "py_str (PBool b) = (if b then ''True'' else ''False'')"
| "py_str PNone = ''None''"

fun truthy :: "pyval \<Rightarrow> bool" where
  "truthy (PStr s) = (s \<noteq> [])"
| "truthy (PInt n) = (n \<noteq> 0)"
| "truthy (PBool b) = b"
| "truthy PNone = False"

text \<open>\<^verbatim>\<open>sep.join(xs)\<close>.\<close>

fun py_join :: "string \<Rightarrow> string list \<Rightarrow> string" where
  "py_join sep [] = []"
| "py_join sep [x] = x"
| "py_join sep (x # y # ys) = x @ sep @ py_join sep (y # ys)"

text \<open>\<^verbatim>\<open>format_citation\<close>.\<close>

definition format_citation :: "pyval \<Rightarrow> pyval \<Rightarrow> string" where
  "format_citation book_name page_number =
     (if truthy page_number
      then ''**'' @ py_str book_name @ ''** (Page '' @ py_str page_number @ '')''
      else ''**'' @ py_str book_name @ ''**'')"

text \<open>
  \<^verbatim>\<open>format_citations_list\<close>: the loop over \<^verbatim>\<open>enumerate(sources, 1)\<close> appends one line
  to \<^verbatim>\<open>citations\<close> for every source; a source is a dictionary.
\<close>

type_synonym source = "string \<rightharpoonup> pyval"

fun citations_loop :: "nat \<Rightarrow> source list \<Rightarrow> string list \<Rightarrow> string list" where
  "citations_loop i [] citations = citations"
| "citations_loop i (src # rest) citations =
     citations_loop (Suc i) rest
       (citations @
          [show_nat i @ ''. '' @
             format_citation (dict_get src ''book'' (PStr ''Unknown''))
               (dict_get src ''page'' PNone)])"

definition format_citations_list :: "source list \<Rightarrow> string" where
  "format_citations_list sources =
     (if sources = [] then [] else py_join [NL] (citations_loop 1 sources []))"

text \<open>
  The line of a citation as the specification words it: the number, the book in bold,
  and the page in brackets unless the page value is falsy.
\<close>

definition citation_line :: "nat \<Rightarrow> pyval \<Rightarrow> pyval \<Rightarrow> string" where
  "citation_line i book page_value =
     show_nat i @ ''. **'' @ py_str book @ ''**''
       @ (if truthy page_value then '' (Page '' @ py_str page_value @ '')'' else [])"

section \<open>\<^verbatim>\<open>src/rag_engine.py\<close>: queries\<close>

text \<open>
  A chunk as the vector store returns it.  The vector store and the language model are
  parameters: each call returns a value or raises.  \<^verbatim>\<open>src/llm_handler.py\<close> is not among
  the sources, so its three methods are parameters too.
\<close>

record 'd retrieved =
  rt_text :: string
  rt_metadata :: "string \<rightharpoonup> pyval"
  rt_distance :: 'd

record 'd rag_env =
  similarity_search :: "string \<Rightarrow> int option \<Rightarrow> py_error + 'd retrieved list"
  create_rag_prompt :: "string \<Rightarrow> 'd retrieved list \<Rightarrow> py_error + string"
  create_general_knowledge_prompt :: "string \<Rightarrow> py_error + string"
  generate_response :: "string \<Rightarrow> py_error + string"

text \<open>
  The calls a query makes to the vector store and to the language model, in order; every
  function below returns them beside its result.
\<close>

datatype call =
    Search string "int option"
  | Rag_prompt string
  | General_prompt string
  | Generate string

fun is_search :: "call \<Rightarrow> bool" where
  "is_search (Search q k) = True"
| "is_search c = False"

fun is_llm_call :: "call \<Rightarrow> bool" where
  "is_llm_call (Search q k) = False"
| "is_llm_call c = True"

text \<open>The source dictionary \<^verbatim>\<open>query_books\<close> builds for one chunk.\<close>

definition text_preview :: "string \<Rightarrow> string" where
  "text_preview t = (if 200 < length t then take 200 t @ ''...'' else t)"

definition source_of :: "'d retrieved \<Rightarrow> source" where
  "source_of chunk =
     [''book'' \<mapsto> dict_get (rt_metadata chunk) ''book_name'' (PStr ''Unknown''),
      ''page'' \<mapsto> dict_get (rt_metadata chunk) ''page'' (PStr ''N/A''),
      ''text_preview'' \<mapsto> PStr (text_preview (rt_text chunk))]"

definition no_information :: string where
  "no_information =
     ''I couldn't find relevant information in the books to answer this question.''"

text \<open>\<^verbatim>\<open>query_books\<close>.\<close>

definition query_books ::
  "'d rag_env \<Rightarrow> string \<Rightarrow> int option \<Rightarrow> (py_error + string \<times> source list) \<times> call list"
where
  "query_books env question top_k =
     (case similarity_search env question top_k of
        Inl e \<Rightarrow> (Inl e, [Search question top_k])
      | Inr chunks \<Rightarrow>
          if chunks = [] then (Inr (no_information, []), [Search question top_k])
          else (case create_rag_prompt env question chunks of
                  Inl e \<Rightarrow> (Inl e, [Search question top_k, Rag_prompt question])
                | Inr prompt \<Rightarrow>
                    (case generate_response env prompt of
                       Inl e \<Rightarrow>
                         (Inl e, [Search question top_k, Rag_prompt question, Generate prompt])
                     | Inr answer \<Rightarrow>
                         (Inr (answer, map source_of chunks),
                          [Search question top_k, Rag_prompt question, Generate prompt]))))"

text \<open>\<^verbatim>\<open>query_general_knowledge\<close>.\<close>

definition query_general_knowledge ::
  "'d rag_env \<Rightarrow> string \<Rightarrow> (py_error + string) \<times> call list"
where
  "query_general_knowledge env question =
     (case create_general_knowledge_prompt env question of
        Inl e \<Rightarrow> (Inl e, [General_prompt question])
      | Inr prompt \<Rightarrow>
          (case generate_response env prompt of
             Inl e \<Rightarrow> (Inl e, [General_prompt question, Generate prompt])
           | Inr answer \<Rightarrow> (Inr answer, [General_prompt question, Generate prompt])))"

text \<open>\<^verbatim>\<open>query\<close> and the dictionary it returns.\<close>

record query_result =
  res_answer :: string
  res_mode :: string
  res_sources :: "source list"
  res_citations :: string

definition query ::
  "'d rag_env \<Rightarrow> string \<Rightarrow> bool \<Rightarrow> int option \<Rightarrow> (py_error + query_result) \<times> call list"
where
  "query env question use_general_knowledge top_k =
     (if use_general_knowledge then
        (case query_general_knowledge env question of
           (Inl e, calls) \<Rightarrow> (Inl e, calls)
         | (Inr answer, calls) \<Rightarrow>
             (Inr \<lparr>res_answer = answer, res_mode = ''general_knowledge'', res_sources = [],
                   res_citations = ''Based on general knowledge (not from textbooks)''\<rparr>,
              calls))
      else
        (case query_books env question top_k of
           (Inl e, calls) \<Rightarrow> (Inl e, calls)
         | (Inr (answer, sources), calls) \<Rightarrow>
             (Inr \<lparr>res_answer = answer, res_mode = ''book_based'', res_sources = sources,
                   res_citations = format_citations_list sources\<rparr>,
              calls)))"

text \<open>
  A vector store and a language model for the examples: a search for \<^verbatim>\<open>heat\<close> finds two
  chunks, any other search none; the model answers every prompt.
\<close>

definition two_hits :: "unit retrieved list" where
  "two_hits =
     [\<lparr>rt_text = ''Heat flows.'',
       rt_metadata = [''book_name'' \<mapsto> PStr ''Perry'', ''page'' \<mapsto> PStr ''12''],
       rt_distance = ()\<rparr>,
      \<lparr>rt_text = ''Mass is kept.'',
       rt_metadata = [''book_name'' \<mapsto> PStr ''Smith'', ''page'' \<mapsto> PStr []],
       rt_distance = ()\<rparr>]"

definition small_engine :: "unit rag_env" where
  "small_engine =
     \<lparr>similarity_search = (\<lambda>q k. if q = ''heat'' then Inr two_hits else Inr []),
      create_rag_prompt = (\<lambda>q chunks. Inr (''Context. '' @ q)),
      create_general_knowledge_prompt = (\<lambda>q. Inr (''General. '' @ q)),
      generate_response = (\<lambda>p. Inr (''Answer to: '' @ p))\<rparr>"

section \<open>Properties of \<^verbatim>\<open>clean_text\<close>\<close>

lemma NL_is_space: "is_space NL" by (simp add: is_space_def)
lemma blank_is_space: "is_space (CHR '' '')" by (simp add: is_space_def)

lemma sub_whitespace_only_blanks: "only_blanks (sub_whitespace s)"
  by (induction s rule: sub_whitespace.induct) (auto simp: only_blanks_def)

lemma hd_sub_whitespace:
  "s \<noteq> [] \<Longrightarrow> \<not> is_space (hd s) \<Longrightarrow> sub_whitespace s \<noteq> [] \<and> \<not> is_space (hd (sub_whitespace s))"
  by (cases s) auto

lemma sub_whitespace_no_adjacent: "no_adjacent_space (sub_whitespace s)"
proof (induction s rule: sub_whitespace.induct)
  case 1
  then show ?case by simp
next
  case (2 c cs)
  show ?case
  proof (cases "is_space c")
    case True
    let ?r = "dropWhile is_space cs"
    show ?thesis
    proof (cases "?r = []")
      case True
      have "sub_whitespace (c # cs) = [CHR '' '']"
        using \<open>is_space c\<close> unfolding sub_whitespace.simps True by simp
      then show ?thesis by simp
    next
      case False
      then have "\<not> is_space (hd ?r)" by (rule hd_dropWhile)
      with False have "sub_whitespace ?r \<noteq> [] \<and> \<not> is_space (hd (sub_whitespace ?r))"
        by (simp add: hd_sub_whitespace)
      moreover have "no_adjacent_space (sub_whitespace ?r)" using 2(1) True by simp
      ultimately show ?thesis using True by (cases "sub_whitespace ?r") auto
    qed
  next
    case False
    then have "no_adjacent_space (sub_whitespace cs)" using 2(2) by simp
    with False show ?thesis by (cases "sub_whitespace cs") auto
  qed
qed

lemma sub_whitespace_fixed:
  "only_blanks s \<Longrightarrow> no_adjacent_space s \<Longrightarrow> sub_whitespace s = s"
proof (induction s rule: sub_whitespace.induct)
  case 1
  then show ?case by simp
next
  case (2 c cs)
  have ob: "only_blanks cs" using 2(3) by (simp add: only_blanks_def)
  have na: "no_adjacent_space cs" using 2(4) by (cases cs) auto
  show ?case
  proof (cases "is_space c")
    case True
    then have c: "c = CHR '' ''" using 2(3) by (simp add: only_blanks_def)
    have "cs = [] \<or> \<not> is_space (hd cs)" using 2(4) True by (cases cs) auto
    then have "dropWhile is_space cs = cs" by (simp add: dropWhile_eq_self_iff)
    with 2(1) True ob na c show ?thesis by simp
  next
    case False
    with 2(2) ob na show ?thesis by simp
  qed
qed

lemma sub_page_numbers_fixed: "NL \<notin> set s \<Longrightarrow> sub_page_numbers s = s"
  by (induction s rule: sub_page_numbers.induct) auto

lemma sub_newlines_fixed: "NL \<notin> set s \<Longrightarrow> sub_newlines s = s"
  by (induction s rule: sub_newlines.induct) auto

lemma only_blanks_no_NL: "only_blanks s \<Longrightarrow> NL \<notin> set s"
  using NL_is_space by (auto simp: only_blanks_def)

lemma py_strip_take_drop: "\<exists>i j. py_strip s = take j (drop i s)"
proof -
  let ?u = "dropWhile is_space s"
  have "?u = drop (length (takeWhile is_space s)) s" by (rule dropWhile_eq_drop)
  moreover have "rev (dropWhile is_space (rev ?u)) = take (length ?u - length (takeWhile is_space (rev ?u))) ?u"
    by (simp add: dropWhile_eq_drop [of is_space "rev ?u"] rev_drop)
  ultimately show ?thesis unfolding py_strip_def by metis
qed

lemma only_blanks_take_drop: "only_blanks s \<Longrightarrow> only_blanks (take j (drop i s))"
  by (auto simp: only_blanks_def dest: in_set_takeD in_set_dropD)

lemma no_adjacent_space_drop: "no_adjacent_space s \<Longrightarrow> no_adjacent_space (drop i s)"
proof (induction i arbitrary: s)
  case 0 then show ?case by simp
next
  case (Suc i)
  then show ?case by (cases s rule: no_adjacent_space.cases) auto
qed

lemma no_adjacent_space_take: "no_adjacent_space s \<Longrightarrow> no_adjacent_space (take j s)"
proof (induction s arbitrary: j rule: no_adjacent_space.induct)
  case 1 then show ?case by simp
next
  case (2 c) then show ?case by (cases j) auto
next
  case (3 c d cs)
  show ?case
  proof (cases j)
    case 0 then show ?thesis by simp
  next
    case (Suc k)
    have "no_adjacent_space (take k (d # cs))" using 3 by simp
    with 3(2) Suc show ?thesis by (cases k) auto
  qed
qed

lemma py_strip_no_outer_space: "no_outer_space (py_strip s)"
proof -
  let ?u = "dropWhile is_space s"
  let ?v = "dropWhile is_space (rev ?u)"
  show ?thesis
  proof (cases "?v = []")
    case True then show ?thesis by (simp add: no_outer_space_def py_strip_def)
  next
    case False
    then have l: "\<not> is_space (hd ?v)" by (rule hd_dropWhile)
    have last: "last (rev ?v) = hd ?v" using False by (simp add: last_rev)
    have une: "?u \<noteq> []"
    proof
      assume a: "?u = []"
      have "?v = []" unfolding a by simp
      with False show False by simp
    qed
    then have hu: "\<not> is_space (hd ?u)" by (rule hd_dropWhile)
    have "rev ?v = take (length ?u - length (takeWhile is_space (rev ?u))) ?u"
      by (simp add: dropWhile_eq_drop [of is_space "rev ?u"] rev_drop)
    moreover have "rev ?v \<noteq> []" using False by simp
    ultimately have "hd (rev ?v) = hd ?u" by (metis hd_take take_eq_Nil neq0_conv)
    with l last hu False show ?thesis by (simp add: no_outer_space_def py_strip_def)
  qed
qed

lemma py_strip_fixed: "no_outer_space s \<Longrightarrow> py_strip s = s"
proof (cases "s = []")
  case True then show ?thesis by (simp add: py_strip_def)
next
  case False
  assume "no_outer_space s"
  with False have h: "\<not> is_space (hd s)" and l: "\<not> is_space (last s)"
    by (simp_all add: no_outer_space_def)
  from h have 1: "dropWhile is_space s = s" by (simp add: dropWhile_eq_self_iff)
  from l False have "\<not> is_space (hd (rev s))" by (simp add: hd_rev)
  then have 2: "dropWhile is_space (rev s) = rev s" by (simp add: dropWhile_eq_self_iff)
  show ?thesis by (simp add: py_strip_def 1 2)
qed

lemma clean_text_eq: "clean_text s = py_strip (sub_whitespace s)"
  using only_blanks_no_NL [OF sub_whitespace_only_blanks, of s]
  by (simp add: clean_text_def sub_page_numbers_fixed sub_newlines_fixed)

lemma clean_text_props:
  "only_blanks (clean_text s)" "no_adjacent_space (clean_text s)" "no_outer_space (clean_text s)"
proof -
  obtain i j where e: "py_strip (sub_whitespace s) = take j (drop i (sub_whitespace s))"
    using py_strip_take_drop by blast
  show "only_blanks (clean_text s)"
    by (simp add: clean_text_eq e only_blanks_take_drop sub_whitespace_only_blanks)
  show "no_adjacent_space (clean_text s)"
    by (simp add: clean_text_eq e no_adjacent_space_take no_adjacent_space_drop sub_whitespace_no_adjacent)
  show "no_outer_space (clean_text s)"
    by (simp add: clean_text_eq py_strip_no_outer_space)
qed


section \<open>Properties of \<^verbatim>\<open>chunk_text\<close>\<close>

text \<open>
  \<^verbatim>\<open>int\<close> at work: code point 31 before the digits is no whitespace for it, so a page
  section that begins with it is skipped.
\<close>

lemma py_int_examples:
  "py_int [CHR 0x1F, CHR ''7''] = None"
  "py_int [CHR ''7'', CHR 0x1C] = None"
  "py_int [CHR 0x0B, CHR ''7'', CHR 0xA0] = Some 7"
  "py_int '' +1_000 '' = Some 1000"
  "py_int ''-12'' = Some (- 12)"
  "py_int ''1__2'' = None"
  "py_int ''- 1'' = None"
  by code_simp+

lemma page_number_after_code_point_31:
  "chunk_text 2 1 (''--- Page '' @ [CHR 0x1F] @ ''7 ---'' @ [NL] @ ''abc'') book_meta = Some (Inr [])"
  by code_simp

lemma py_split_first_piece: "\<exists>piece. py_index (py_split sep s) 0 = Some piece"
  by (subst py_split.simps) (simp split: option.splits)

lemma py_split1_second_piece:
  "py_contains sep s \<Longrightarrow> \<exists>piece. py_index (py_split1 sep s) 1 = Some piece"
  by (auto simp: py_contains_def py_split1_def)

lemma sliding_windows_nonempty: "sliding_windows width overlap s \<noteq> []"
  by (subst sliding_windows.simps) simp

lemma sliding_windows_append:
  "overlap < width \<Longrightarrow>
   sliding_windows width overlap (s @ t) =
     butlast (sliding_windows width overlap s)
       @ sliding_windows width overlap (last (sliding_windows width overlap s) @ t)"
proof (induction width overlap s rule: sliding_windows.induct)
  case (1 width overlap s)
  show ?case
  proof (cases "width \<le> length s")
    case True
    with 1(2) have le: "width - overlap \<le> length s" by simp
    have IH: "sliding_windows width overlap (drop (width - overlap) s @ t) =
       butlast (sliding_windows width overlap (drop (width - overlap) s))
       @ sliding_windows width overlap (last (sliding_windows width overlap (drop (width - overlap) s)) @ t)"
      using 1 True by simp
    have a: "sliding_windows width overlap (s @ t) = take width s # sliding_windows width overlap (drop (width - overlap) s @ t)"
      using True 1(2) le by (subst sliding_windows.simps) simp
    have b: "sliding_windows width overlap s = take width s # sliding_windows width overlap (drop (width - overlap) s)"
      using True 1(2) by (subst sliding_windows.simps) simp
    show ?thesis unfolding a IH by (simp add: b sliding_windows_nonempty)
  next
    case False
    then have "sliding_windows width overlap s = [s]" by (subst sliding_windows.simps) simp
    then show ?thesis by simp
  qed
qed

lemma make_chunk_ok:
  "meta ''book_name'' = Some b \<Longrightarrow> meta ''file_path'' = Some f \<Longrightarrow>
   make_chunk meta t cid p = Inr \<lparr>ck_text = t, ck_chunk_id = cid, ck_book_name = b, ck_page = p, ck_source = f\<rparr>"
  by (simp add: make_chunk_def)

lemma window_chunks_append:
  "window_chunks b f p cid (ws @ vs) = window_chunks b f p cid ws @ window_chunks b f p (cid + int (length ws)) vs"
  by (induction ws arbitrary: cid) (simp_all add: algebra_simps)

lemma chunk_while_windows:
  assumes "0 < C" "0 \<le> ov" "ov < C"
    and "meta ''book_name'' = Some b" "meta ''file_path'' = Some f"
  shows "chunk_while C ov meta p chunks cur cid =
     Some (Inr (chunks @ window_chunks b f p cid (butlast (sliding_windows (nat C) (nat ov) cur)),
                last (sliding_windows (nat C) (nat ov) cur),
                cid + int (length (butlast (sliding_windows (nat C) (nat ov) cur)))))"
  using assms
proof (induction "nat C" "nat ov" cur arbitrary: chunks cid rule: sliding_windows.induct)
  case (1 s)
  show ?case
  proof (cases "nat C \<le> length s")
    case True
    then have c: "C \<le> int (length s)" using 1(2) by linarith
    have o: "nat ov < nat C" using 1 by linarith
    have sw: "sliding_windows (nat C) (nat ov) s = take (nat C) s # sliding_windows (nat C) (nat ov) (drop (nat C - nat ov) s)"
      using True o by (subst sliding_windows.simps) simp
    have st: "slice_to s C = take (nat C) s" using 1(2) by (simp add: slice_to_def)
    have sf: "slice_from s (C - ov) = drop (nat C - nat ov) s" using 1(2,3,4) by (simp add: slice_from_def nat_diff_distrib)
    let ?ch = "\<lparr>ck_text = py_strip (take (nat C) s), ck_chunk_id = cid, ck_book_name = b, ck_page = p, ck_source = f\<rparr>"
    have IH: "chunk_while C ov meta p (chunks @ [?ch]) (drop (nat C - nat ov) s) (cid + 1) =
       Some (Inr ((chunks @ [?ch]) @ window_chunks b f p (cid + 1) (butlast (sliding_windows (nat C) (nat ov) (drop (nat C - nat ov) s))),
                last (sliding_windows (nat C) (nat ov) (drop (nat C - nat ov) s)),
                (cid + 1) + int (length (butlast (sliding_windows (nat C) (nat ov) (drop (nat C - nat ov) s))))))"
      using 1(1) [OF _ 1(2-6)] True o by simp
    have "0 < length (sliding_windows (nat C) (nat ov) (drop (nat C - nat ov) s))"
      using sliding_windows_nonempty by simp
    then have e: "int (length (sliding_windows (nat C) (nat ov) (drop (nat C - nat ov) s)) - Suc 0)
        = int (length (sliding_windows (nat C) (nat ov) (drop (nat C - nat ov) s))) - 1"
      by linarith
    show ?thesis
      apply (subst chunk_while.simps)
      apply (simp add: c st sf make_chunk_ok [OF 1(5,6)] IH)
      apply (simp add: sw sliding_windows_nonempty e)
      done
  next
    case False
    then have c: "\<not> C \<le> int (length s)" using 1(2) by linarith
    have sw: "sliding_windows (nat C) (nat ov) s = [s]"
      using False by (subst sliding_windows.simps) simp
    show ?thesis
      by (subst chunk_while.simps) (simp add: c sw)
  qed
qed

lemma chunk_while_total:
  assumes "0 < C" "ov < C"
  shows "\<exists>r. chunk_while C ov meta p chunks cur cid = Some r"
  using assms
proof (induction cur arbitrary: chunks cid rule: length_induct)
  case (1 cur)
  show ?case
  proof (cases "C \<le> int (length cur)")
    case False
    then show ?thesis by (subst chunk_while.simps) simp
  next
    case True
    show ?thesis
    proof (cases "make_chunk meta (py_strip (slice_to cur C)) cid p")
      case (Inl e)
      with True show ?thesis by (subst chunk_while.simps) simp
    next
      case (Inr ch)
      have "length (slice_from cur (C - ov)) < length cur"
        using True 1(2,3) by (auto simp: slice_from_def)
      then obtain r where "chunk_while C ov meta p (chunks @ [ch]) (slice_from cur (C - ov)) (cid + 1) = Some r"
        using 1 by blast
      with True Inr show ?thesis by (subst chunk_while.simps) simp
    qed
  qed
qed


lemma sliding_windows_last_short:
  "overlap < width \<Longrightarrow> length (last (sliding_windows width overlap s)) < width"
proof (induction width overlap s rule: sliding_windows.induct)
  case (1 width overlap s)
  show ?case
  proof (cases "width \<le> length s")
    case True
    have b: "sliding_windows width overlap s = take width s # sliding_windows width overlap (drop (width - overlap) s)"
      using True 1(2) by (subst sliding_windows.simps) simp
    show ?thesis using 1 True by (simp add: b sliding_windows_nonempty)
  next
    case False
    then have "sliding_windows width overlap s = [s]" by (subst sliding_windows.simps) simp
    with False show ?thesis by simp
  qed
qed

lemma sliding_windows_short:
  "length s < width \<Longrightarrow> sliding_windows width overlap s = [s]"
  by (subst sliding_windows.simps) simp

lemma sliding_windows_full:
  "overlap < width \<Longrightarrow> w \<in> set (butlast (sliding_windows width overlap s)) \<Longrightarrow> length w = width"
proof (induction width overlap s rule: sliding_windows.induct)
  case (1 width overlap s)
  show ?case
  proof (cases "width \<le> length s")
    case True
    have b: "sliding_windows width overlap s = take width s # sliding_windows width overlap (drop (width - overlap) s)"
      using True 1(2) by (subst sliding_windows.simps) simp
    from 1(3) have "w = take width s \<or> w \<in> set (butlast (sliding_windows width overlap (drop (width - overlap) s)))"
      by (simp add: b sliding_windows_nonempty)
    then show ?thesis using 1(1,2) True by auto
  next
    case False
    then have "sliding_windows width overlap s = [s]" by (subst sliding_windows.simps) simp
    with 1(3) show ?thesis by simp
  qed
qed

lemma sliding_windows_hd:
  "overlap < width \<Longrightarrow> hd (sliding_windows width overlap s) = take width s"
  by (subst sliding_windows.simps) simp

lemma sliding_windows_overlap:
  "overlap < width \<Longrightarrow> Suc i < length (sliding_windows width overlap s) \<Longrightarrow>
   take overlap (sliding_windows width overlap s ! Suc i)
     = drop (width - overlap) (sliding_windows width overlap s ! i)"
proof (induction width overlap s arbitrary: i rule: sliding_windows.induct)
  case (1 width overlap s)
  show ?case
  proof (cases "width \<le> length s")
    case True
    let ?R = "sliding_windows width overlap (drop (width - overlap) s)"
    have b: "sliding_windows width overlap s = take width s # ?R"
      using True 1(2) by (subst sliding_windows.simps) simp
    show ?thesis
    proof (cases i)
      case 0
      have "?R ! 0 = hd ?R" using sliding_windows_nonempty [of width overlap] by (simp add: hd_conv_nth)
      then have "?R ! 0 = take width (drop (width - overlap) s)" using 1(2) by (simp add: sliding_windows_hd)
      moreover have "take overlap (take width (drop (width - overlap) s)) = take overlap (drop (width - overlap) s)"
        using 1(2) by (simp add: min_def)
      moreover have "drop (width - overlap) (take width s) = take overlap (drop (width - overlap) s)"
        using 1(2) by (simp add: drop_take)
      ultimately show ?thesis using 0 by (simp add: b)
    next
      case (Suc j)
      with 1(3) have "Suc j < length ?R" by (simp add: b)
      then have "take overlap (?R ! Suc j) = drop (width - overlap) (?R ! j)"
        using 1(1) [of j] 1(2) True by simp
      with Suc show ?thesis by (simp add: b)
    qed
  next
    case False
    then have "sliding_windows width overlap s = [s]" by (subst sliding_windows.simps) simp
    with 1(3) show ?thesis by simp
  qed
qed

lemma sliding_windows_cover:
  "overlap < width \<Longrightarrow>
   concat (map (take (width - overlap)) (butlast (sliding_windows width overlap s)))
     @ last (sliding_windows width overlap s) = s"
proof (induction width overlap s rule: sliding_windows.induct)
  case (1 width overlap s)
  show ?case
  proof (cases "width \<le> length s")
    case True
    have b: "sliding_windows width overlap s = take width s # sliding_windows width overlap (drop (width - overlap) s)"
      using True 1(2) by (subst sliding_windows.simps) simp
    have "take (width - overlap) (take width s) = take (width - overlap) s" by (simp add: min_def)
    then show ?thesis using 1 True by (simp add: b sliding_windows_nonempty)
  next
    case False
    then have "sliding_windows width overlap s = [s]" by (subst sliding_windows.simps) simp
    then show ?thesis by simp
  qed
qed

lemma window_chunks_text: "map ck_text (window_chunks b f p cid ws) = map py_strip ws"
  by (induction ws arbitrary: cid) simp_all

lemma page_texts_Nil: "page_texts [] = []"
  by (simp add: page_texts_def List.map_filter_simps)

lemma page_texts_Cons:
  "page_texts (p # ps) =
     (case parse_page_section p of None \<Rightarrow> page_texts ps | Some (n, t) \<Rightarrow> t @ page_texts ps)"
  by (simp add: page_texts_def List.map_filter_simps split: option.splits)

lemma chunk_pages_windows:
  assumes "0 < C" "0 \<le> ov" "ov < C"
    and "meta ''book_name'' = Some b" "meta ''file_path'' = Some f"
  shows "length cur < nat C \<Longrightarrow>
     \<exists>chunks' pn'.
       chunk_pages C ov meta ps (chunks, cur, cid, pn) =
         Some (Inr (chunks', last (sliding_windows (nat C) (nat ov) (cur @ page_texts ps)),
                    cid + int (length (butlast (sliding_windows (nat C) (nat ov) (cur @ page_texts ps)))), pn'))
       \<and> map ck_text chunks' =
           map ck_text chunks @ map py_strip (butlast (sliding_windows (nat C) (nat ov) (cur @ page_texts ps)))
       \<and> (pn' = None \<longrightarrow> pn = None \<and> page_texts ps = [])"
proof (induction ps arbitrary: chunks cur cid pn)
  case Nil
  then show ?case by (simp add: page_texts_Nil sliding_windows_short)
next
  case (Cons p ps)
  have o: "nat ov < nat C" using assms by linarith
  show ?case
  proof (cases "parse_page_section p")
    case None
    with Cons.IH [OF Cons.prems, of chunks cid pn] show ?thesis
      by (simp add: page_texts_Cons)
  next
    case (Some a)
    obtain n t where a: "a = (n, t)" by (cases a)
    let ?W1 = "sliding_windows (nat C) (nat ov) (cur @ t)"
    let ?W2 = "sliding_windows (nat C) (nat ov) (last ?W1 @ page_texts ps)"
    let ?W = "sliding_windows (nat C) (nat ov) (cur @ page_texts (p # ps))"
    have W: "?W = butlast ?W1 @ ?W2"
      using sliding_windows_append [OF o, of "cur @ t" "page_texts ps"] Some a
      by (simp add: page_texts_Cons)
    have bl: "butlast ?W = butlast ?W1 @ butlast ?W2" and la: "last ?W = last ?W2"
      by (simp_all add: W butlast_append sliding_windows_nonempty)
    have short: "length (last ?W1) < nat C" using o by (rule sliding_windows_last_short)
    have cw: "chunk_while C ov meta n chunks (cur @ t) cid =
        Some (Inr (chunks @ window_chunks b f n cid (butlast ?W1), last ?W1, cid + int (length (butlast ?W1))))"
      by (rule chunk_while_windows [OF assms])
    obtain chunks' pn' where
      r: "chunk_pages C ov meta ps (chunks @ window_chunks b f n cid (butlast ?W1), last ?W1,
             cid + int (length (butlast ?W1)), Some n) =
           Some (Inr (chunks', last ?W2, cid + int (length (butlast ?W1)) + int (length (butlast ?W2)), pn'))"
      and t: "map ck_text chunks' = map ck_text (chunks @ window_chunks b f n cid (butlast ?W1)) @ map py_strip (butlast ?W2)"
      and pn: "pn' \<noteq> None"
      using Cons.IH [OF short, of "chunks @ window_chunks b f n cid (butlast ?W1)" "cid + int (length (butlast ?W1))" "Some n"]
      by blast
    have step: "chunk_pages C ov meta (p # ps) (chunks, cur, cid, pn) =
        chunk_pages C ov meta ps (chunks @ window_chunks b f n cid (butlast ?W1), last ?W1,
             cid + int (length (butlast ?W1)), Some n)"
      by (simp add: Some a cw)
    have len: "cid + int (length (butlast ?W)) =
        cid + int (length (butlast ?W1)) + int (length (butlast ?W2))"
      unfolding bl by simp
    have 1: "chunk_pages C ov meta (p # ps) (chunks, cur, cid, pn) =
        Some (Inr (chunks', last ?W, cid + int (length (butlast ?W)), pn'))"
      unfolding step r la len ..
    have 2: "map ck_text chunks' = map ck_text chunks @ map py_strip (butlast ?W)"
      unfolding t bl by (simp add: window_chunks_text)
    from 1 2 pn show ?thesis by blast
  qed
qed


lemma chunk_pages_total:
  assumes "0 < C" "ov < C"
  shows "\<exists>r. chunk_pages C ov meta ps st = Some r"
proof (induction ps arbitrary: st)
  case Nil
  then show ?case by simp
next
  case (Cons p ps)
  obtain chunks cur cid pn where st: "st = (chunks, cur, cid, pn)" by (cases st)
  show ?case
  proof (cases "parse_page_section p")
    case None
    with Cons [of "(chunks, cur, cid, pn)"] st show ?thesis by simp
  next
    case (Some a)
    obtain n t where a: "a = (n, t)" by (cases a)
    obtain r where r: "chunk_while C ov meta n chunks (cur @ t) cid = Some r"
      using chunk_while_total [OF assms] by blast
    show ?thesis
    proof (cases r)
      case (Inl e)
      with Some a r st show ?thesis by simp
    next
      case (Inr x)
      obtain c' u' i' where "x = (c', u', i')" by (cases x)
      with Cons [of "(c', u', i', Some n)"] Inr Some a r st show ?thesis by simp
    qed
  qed
qed

lemma chunk_text_total:
  assumes "0 < chunk_size" "chunk_overlap < chunk_size"
  shows "\<exists>r. chunk_text chunk_size chunk_overlap txt meta = Some r"
proof -
  have "0 < chunk_size * 4" "chunk_overlap * 4 < chunk_size * 4" using assms by simp_all
  then obtain r where
    "chunk_pages (chunk_size * 4) (chunk_overlap * 4) meta (drop 1 (py_split ''--- Page '' txt)) ([], [], 0, None) = Some r"
    using chunk_pages_total by blast
  then show ?thesis
    by (cases r) (auto simp: chunk_text_def Let_def split: option.splits sum.splits)
qed

lemma acc1: "accumulated_text ''--- Page 1 --- a bcdefgh'' = ''1 --- a bcdefgh''"
  by code_simp

lemma sw1: "sliding_windows 8 4 ''1 --- a bcdefgh'' = [''1 --- a '', ''- a bcde'', ''bcdefgh'']"
  by code_simp


section \<open>Properties of the batch loop\<close>

text \<open>
  The processor the application builds, \<^verbatim>\<open>DocumentProcessor()\<close>, has the parameters of
  the settings, which meet what the theorems on chunking ask for.  A processor built with
  a chunk size of 200 and no overlap gets the overlap of the settings, equal to its size.
\<close>

lemma default_chunking_parameters:
  "document_processor_init None None = (1000, 200)"
  "0 < CHUNK_SIZE \<and> 0 \<le> CHUNK_OVERLAP \<and> CHUNK_OVERLAP < CHUNK_SIZE"
  by (simp_all add: document_processor_init_def py_or_def CHUNK_SIZE_def CHUNK_OVERLAP_def)

lemma equal_chunking_parameters:
  "document_processor_init (Some 200) None = (200, 200)"
  by (simp add: document_processor_init_def py_or_def CHUNK_OVERLAP_def)

lemma process_book_total:
  assumes "0 < chunk_size" "chunk_overlap < chunk_size"
  shows "\<exists>r. process_book env chunk_size chunk_overlap pdf_file = Some r"
proof (cases "load_pdf env pdf_file")
  case (Inl e)
  then show ?thesis by (simp add: process_book_def)
next
  case (Inr a)
  obtain t meta where "a = (t, meta)" by (cases a)
  with Inr chunk_text_total [OF assms, of t meta] show ?thesis
    by (simp add: process_book_def)
qed

lemma all_books_end:
  assumes "0 < chunk_size" "chunk_overlap < chunk_size"
  shows "list_all (book_ends env chunk_size chunk_overlap) pdf_files"
  using process_book_total [OF assms, of env]
  by (induction pdf_files) (auto simp: book_ends_def)

lemma process_books_loop_result:
  "process_books_loop env chunk_size chunk_overlap pdf_files (all_chunks, successful, failed, calls) =
     (if list_all (book_ends env chunk_size chunk_overlap) pdf_files
      then Some (all_chunks @ concat (map (book_chunks env chunk_size chunk_overlap) pdf_files),
                 successful + length (filter (\<lambda>f. \<not> book_fails env chunk_size chunk_overlap f) pdf_files),
                 failed + length (filter (book_fails env chunk_size chunk_overlap) pdf_files),
                 calls @ pdf_files)
      else None)"
proof (induction pdf_files arbitrary: all_chunks successful failed calls)
  case Nil
  then show ?case by simp
next
  case (Cons f fs)
  show ?case
  proof (cases "process_book env chunk_size chunk_overlap f")
    case None
    then have "\<not> book_ends env chunk_size chunk_overlap f" by (simp add: book_ends_def)
    with None show ?thesis by simp
  next
    case (Some r)
    show ?thesis
    proof (cases r)
      case (Inl e)
      with Some have p: "process_book env chunk_size chunk_overlap f = Some (Inl e)" by simp
      then have b: "book_ends env chunk_size chunk_overlap f" "book_fails env chunk_size chunk_overlap f"
        "book_chunks env chunk_size chunk_overlap f = []"
        by (simp_all add: book_chunks_def book_fails_def book_ends_def)
      show ?thesis
        using Cons [of all_chunks successful "failed + 1" "calls @ [f]"] by (simp add: p b)
    next
      case (Inr chunks)
      with Some have p: "process_book env chunk_size chunk_overlap f = Some (Inr chunks)" by simp
      then have b: "book_ends env chunk_size chunk_overlap f" "\<not> book_fails env chunk_size chunk_overlap f"
        "book_chunks env chunk_size chunk_overlap f = chunks"
        by (simp_all add: book_chunks_def book_fails_def book_ends_def)
      show ?thesis
        using Cons [of "all_chunks @ chunks" "successful + 1" failed "calls @ [f]"] by (simp add: p b)
    qed
  qed
qed

lemma two_books_first: "process_book two_books 2 1 ''books/a.pdf'' = Some (Inl (LibraryError ''cannot open''))"
  by code_simp

lemma two_books_second: "process_book two_books 2 1 ''books/b.pdf'' = Some (Inr [
   \<lparr>ck_text = ''1 --- ab'', ck_chunk_id = 0, ck_book_name = PStr ''b'', ck_page = 1, ck_source = PStr ''books/b.pdf''\<rparr>,
   \<lparr>ck_text = ''- ab cd'', ck_chunk_id = 1, ck_book_name = PStr ''b'', ck_page = 1, ck_source = PStr ''books/b.pdf''\<rparr>])"
  by code_simp


section \<open>Properties of the book tracker\<close>

lemma hash_chunks_eq: "hash_chunks unread fed = fed @ unread"
proof (induction unread fed rule: hash_chunks.induct)
  case (1 unread fed)
  show ?case
  proof (cases "take 4096 unread = []")
    case True
    then have "unread = []" by simp
    then show ?thesis by (subst hash_chunks.simps) simp
  next
    case False
    have "hash_chunks unread fed = hash_chunks (drop 4096 unread) (fed @ take 4096 unread)"
      using False by (subst hash_chunks.simps) simp
    also have "\<dots> = (fed @ take 4096 unread) @ drop 4096 unread" using 1 False by simp
    finally show ?thesis by simp
  qed
qed

lemma calculate_file_hash_eq:
  "calculate_file_hash lib fs p =
     (case fs p of None \<Rightarrow> Inl (FileNotFoundError p) | Some content \<Rightarrow> Inr (md5_hexdigest lib content))"
  by (simp add: calculate_file_hash_def hash_chunks_eq split: option.splits)

lemma backed_mono: "backed lib ops k e \<Longrightarrow> backed lib (ops @ ops') k e"
  unfolding backed_def by (elim bexE) (rule bexI, auto)

lemma tracked_mono: "tracked lib ops m \<Longrightarrow> tracked lib (ops @ ops') m"
  unfolding tracked_def by (blast intro: backed_mono)

lemma tracked_save:
  assumes "tracked lib ops m"
  shows "tracked lib ops (save_tracker ce m)"
  using assms by (cases "write_result ce") (auto simp: tracked_def save_tracker_def)

lemma tracked_books_update:
  assumes "tracked lib ops m" and "backed lib ops k e"
  shows "tracked lib ops (m\<lparr>processed_books := (processed_books m)(k \<mapsto> e)\<rparr>)"
  using assms by (auto simp: tracked_def)

lemma tracked_books_delete:
  assumes "tracked lib ops m"
  shows "tracked lib ops (m\<lparr>processed_books := (processed_books m)(k := None)\<rparr>)"
  using assms by (auto simp: tracked_def)

lemma tracked_step: "tracked lib ops m \<Longrightarrow> tracked lib (ops @ [x]) (apply_op lib m x)"
proof -
  assume t: "tracked lib ops m"
  then have t': "tracked lib (ops @ [x]) m" by (rule tracked_mono)
  obtain fs ce op where x: "x = (fs, ce, op)" by (cases x)
  show ?thesis
  proof (cases op)
    case (Remove k)
    with x t' show ?thesis by (simp add: remove_book_def tracked_save tracked_books_delete)
  next
    case (Mark p n)
    show ?thesis
    proof (cases "fs p")
      case None
      with x Mark t' show ?thesis by (simp add: mark_as_processed_def calculate_file_hash_eq)
    next
      case (Some content)
      let ?e = "[''file_path'' \<mapsto> PStr (path_to_str lib p),
                 ''file_hash'' \<mapsto> PStr (md5_hexdigest lib content),
                 ''chunk_count'' \<mapsto> PInt n,
                 ''processed_date'' \<mapsto> PStr (processed_date ce),
                 ''file_size'' \<mapsto> PInt (int (length content))]"
      have "(fs, ce, Mark p n) \<in> set (ops @ [x])" using x Mark by simp
      then have b: "backed lib (ops @ [x]) (path_name lib p) ?e"
        unfolding backed_def using Some by (intro bexI [of _ "(fs, ce, Mark p n)"]) auto
      have "apply_op lib m x = save_tracker ce
              (m\<lparr>processed_books := (processed_books m)(path_name lib p \<mapsto> ?e)\<rparr>)"
        using x Mark Some by (simp add: mark_as_processed_def calculate_file_hash_eq)
      then show ?thesis using t' b by (simp add: tracked_save tracked_books_update)
    qed
  qed
qed

lemma tracked_run: "tracked lib ops0 m \<Longrightarrow> tracked lib (ops0 @ ops) (run_ops lib ops m)"
proof (induction ops arbitrary: ops0 m)
  case Nil
  then show ?case by (simp add: run_ops_def)
next
  case (Cons x xs)
  from Cons.prems have "tracked lib (ops0 @ [x]) (apply_op lib m x)" by (rule tracked_step)
  from Cons.IH [OF this] show ?case by (simp add: run_ops_def)
qed

lemma tracked_init: "tracked lib [] (book_manager_init Absent)"
  by (simp add: tracked_def book_manager_init_def load_tracker_def)

lemma one_mark_result:
  "run_ops (libs_with md5) one_mark (book_manager_init Absent) =
     \<lparr>processed_books = [''a.pdf'' \<mapsto> [''file_path'' \<mapsto> PStr ''books/a.pdf'',
                  ''file_hash'' \<mapsto> PStr (md5 ''a''),
                  ''chunk_count'' \<mapsto> PInt 3,
                  ''processed_date'' \<mapsto> PStr ''2024-01-01T00:00:00'',
                  ''file_size'' \<mapsto> PInt 1]],
      tracker_file = Saved [''a.pdf'' \<mapsto> [''file_path'' \<mapsto> PStr ''books/a.pdf'',
                  ''file_hash'' \<mapsto> PStr (md5 ''a''),
                  ''chunk_count'' \<mapsto> PInt 3,
                  ''processed_date'' \<mapsto> PStr ''2024-01-01T00:00:00'',
                  ''file_size'' \<mapsto> PInt 1]] ''2024-01-01T00:00:01''\<rparr>"
  by (simp add: run_ops_def one_mark_def mark_as_processed_def calculate_file_hash_eq
        libs_with_def last_component_def quiet_def save_tracker_def book_manager_init_def
        load_tracker_def Let_def)


lemma mark_as_processed_books:
  "fs p = Some content \<Longrightarrow>
   \<exists>m'. mark_as_processed lib fs ce m p n = Inr m'
      \<and> processed_books m' (path_name lib p) =
          Some [''file_path'' \<mapsto> PStr (path_to_str lib p),
                ''file_hash'' \<mapsto> PStr (md5_hexdigest lib content),
                ''chunk_count'' \<mapsto> PInt n,
                ''processed_date'' \<mapsto> PStr (processed_date ce),
                ''file_size'' \<mapsto> PInt (int (length content))]"
  by (cases "write_result ce")
     (simp_all add: mark_as_processed_def calculate_file_hash_eq save_tracker_def Let_def)

lemma mark_as_processed_needs_file:
  "mark_as_processed lib fs ce m p n = Inr m' \<Longrightarrow> \<exists>content. fs p = Some content"
  by (cases "fs p") (simp_all add: mark_as_processed_def calculate_file_hash_eq)

lemma is_processed_True_iff:
  assumes "\<forall>content. length (md5_hexdigest lib content) = 32"
  shows "(is_processed lib fs books p = Inr True) \<longleftrightarrow>
     (\<exists>e content. books (path_name lib p) = Some e \<and> fs p = Some content
        \<and> e ''file_hash'' = Some (PStr (md5_hexdigest lib content)))"
proof (cases "books (path_name lib p)")
  case None
  then show ?thesis by (simp add: is_processed_def)
next
  case (Some e)
  show ?thesis
  proof (cases "fs p")
    case None
    with Some show ?thesis by (simp add: is_processed_def calculate_file_hash_eq)
  next
    case fsp: (Some content)
    have ne: "md5_hexdigest lib content \<noteq> []" using assms [rule_format, of content] by auto
    show ?thesis
    proof (cases "e ''file_hash''")
      case None
      with Some fsp ne show ?thesis
        by (simp add: is_processed_def calculate_file_hash_eq dict_get_def)
    next
      case h: (Some v)
      with Some fsp show ?thesis
        by (auto simp add: is_processed_def calculate_file_hash_eq dict_get_def)
    qed
  qed
qed

lemma digest_collision:
  assumes "\<forall>content. length ((md5 :: bytes \<Rightarrow> string) content) = 32"
  shows "\<exists>content content'. content \<noteq> content' \<and> md5 content = md5 content'"
proof (rule ccontr)
  assume "\<not> (\<exists>content content'. content \<noteq> content' \<and> md5 content = md5 content')"
  then have "inj md5" by (auto simp: inj_on_def)
  moreover have "range md5 \<subseteq> {xs. set xs \<subseteq> UNIV \<and> length xs = 32}" using assms by auto
  then have "finite (range md5)"
    using finite_lists_length_eq [of "UNIV :: char set" 32] by (metis finite_subset finite_code)
  ultimately have "finite (UNIV :: bytes set)" by (rule finite_imageD [rotated])
  then show False using infinite_UNIV_listI by blast
qed


section \<open>Properties of the queries\<close>

lemma citations_loop_eq:
  "citations_loop i sources citations =
     citations @ map (\<lambda>j. citation_line (i + j) (dict_get (sources ! j) ''book'' (PStr ''Unknown''))
                         (dict_get (sources ! j) ''page'' PNone)) [0..<length sources]"
proof (induction sources arbitrary: i citations)
  case Nil
  then show ?case by simp
next
  case (Cons s ss)
  have l: "show_nat i @ ''. '' @ format_citation (dict_get s ''book'' (PStr ''Unknown'')) (dict_get s ''page'' PNone)
        = citation_line i (dict_get s ''book'' (PStr ''Unknown'')) (dict_get s ''page'' PNone)"
    by (simp add: format_citation_def citation_line_def)
  have m: "map (\<lambda>j. citation_line (i + j) (dict_get ((s # ss) ! j) ''book'' (PStr ''Unknown''))
                         (dict_get ((s # ss) ! j) ''page'' PNone)) [0..<length (s # ss)]
      = citation_line i (dict_get s ''book'' (PStr ''Unknown'')) (dict_get s ''page'' PNone)
        # map (\<lambda>j. citation_line (Suc i + j) (dict_get (ss ! j) ''book'' (PStr ''Unknown''))
                         (dict_get (ss ! j) ''page'' PNone)) [0..<length ss]"
    by (simp add: upt_conv_Cons map_Suc_upt [symmetric] del: upt_Suc)
  show ?case unfolding citations_loop.simps l Cons.IH m by simp
qed

lemma source_of_fields:
  "source_of c ''book'' = Some (dict_get (rt_metadata c) ''book_name'' (PStr ''Unknown''))"
  "source_of c ''page'' = Some (dict_get (rt_metadata c) ''page'' (PStr ''N/A''))"
  by (simp_all add: source_of_def)

lemma source_of_get:
  "dict_get (source_of c) ''book'' d = dict_get (rt_metadata c) ''book_name'' (PStr ''Unknown'')"
  "dict_get (source_of c) ''page'' d' = dict_get (rt_metadata c) ''page'' (PStr ''N/A'')"
  by (simp_all add: dict_get_def [of "source_of c"] source_of_fields)

lemma heat_lines:
  "py_join [NL]
     (map (\<lambda>i. citation_line (Suc i)
                (dict_get (rt_metadata (two_hits ! i)) ''book_name'' (PStr ''Unknown''))
                (dict_get (rt_metadata (two_hits ! i)) ''page'' (PStr ''N/A'')))
        [0..<length two_hits])
   = ''1. **Perry** (Page 12)'' @ [NL] @ ''2. **Smith**''"
  by code_simp


section \<open>The chunks \<^verbatim>\<open>chunk_text\<close> returns\<close>

lemma well_formed_chunks_snoc:
  assumes "well_formed_chunks meta chunks"
    and "make_chunk meta (py_strip t) (int (length chunks)) p = Inr ch"
  shows "well_formed_chunks meta (chunks @ [ch])"
proof -
  from assms(2) have "ck_chunk_id ch = int (length chunks)" "ck_text ch = py_strip t"
    "meta ''book_name'' = Some (ck_book_name ch)" "meta ''file_path'' = Some (ck_source ch)"
    by (auto simp: make_chunk_def split: option.splits)
  with assms(1) show ?thesis
    by (auto simp: well_formed_chunks_def nth_append py_strip_no_outer_space less_Suc_eq)
qed

text \<open>
  An invariant of the inner loop: what holds of \<^verbatim>\<open>chunks\<close>, \<^verbatim>\<open>current_chunk\<close> and
  \<^verbatim>\<open>chunk_id\<close> before the loop and is kept by every round holds when the loop ends,
  whatever the chunk size and the overlap.
\<close>

lemma chunk_while_invariant:
  assumes r: "chunk_while C ov meta p chunks cur cid = Some (Inr (chunks', cur', cid'))"
    and init: "I chunks cur cid"
    and step: "\<And>chunks cur cid ch. I chunks cur cid \<Longrightarrow> C \<le> int (length cur) \<Longrightarrow>
       make_chunk meta (py_strip (slice_to cur C)) cid p = Inr ch \<Longrightarrow>
       I (chunks @ [ch]) (slice_from cur (C - ov)) (cid + 1)"
  shows "I chunks' cur' cid'"
proof -
  have gen: "C = C \<longrightarrow> ov = ov \<longrightarrow> meta = meta \<longrightarrow> p = p \<longrightarrow> I chunks cur cid \<longrightarrow>
        (\<forall>a b c. r0 = Inr (a, b, c) \<longrightarrow> I a b c)"
    if "chunk_while C ov meta p chunks cur cid = Some r0" for r0
    using that
  proof (rule chunk_while.raw_induct
      [where P = "\<lambda>C0 ov0 meta0 p0 chunks cur cid r.
         C0 = C \<longrightarrow> ov0 = ov \<longrightarrow> meta0 = meta \<longrightarrow> p0 = p \<longrightarrow> I chunks cur cid \<longrightarrow>
           (\<forall>a b c. r = Inr (a, b, c) \<longrightarrow> I a b c)", rotated])
    fix f :: "int \<Rightarrow> int \<Rightarrow> 'a metadata \<Rightarrow> int \<Rightarrow> 'a chunk list \<Rightarrow> string \<Rightarrow> int
       \<Rightarrow> (py_error + 'a chunk list \<times> string \<times> int) option"
    fix C0 ov0 :: int and meta0 :: "'a metadata" and p0 :: int and chunks :: "'a chunk list"
      and cur :: string and cid :: int and r
    assume IH: "\<And>C0 ov0 meta0 p0 chunks cur cid r. f C0 ov0 meta0 p0 chunks cur cid = Some r \<Longrightarrow>
         C0 = C \<longrightarrow> ov0 = ov \<longrightarrow> meta0 = meta \<longrightarrow> p0 = p \<longrightarrow> I chunks cur cid \<longrightarrow>
           (\<forall>a b c. r = Inr (a, b, c) \<longrightarrow> I a b c)"
    assume body: "(if C0 \<le> int (length cur)
        then case make_chunk meta0 (py_strip (slice_to cur C0)) cid p0 of
             Inl e \<Rightarrow> Some (Inl e)
             | Inr ch \<Rightarrow> f C0 ov0 meta0 p0 (chunks @ [ch]) (slice_from cur (C0 - ov0)) (cid + 1)
        else Some (Inr (chunks, cur, cid))) = Some r"
    show "C0 = C \<longrightarrow> ov0 = ov \<longrightarrow> meta0 = meta \<longrightarrow> p0 = p \<longrightarrow> I chunks cur cid \<longrightarrow>
           (\<forall>a b c. r = Inr (a, b, c) \<longrightarrow> I a b c)"
    proof (intro impI allI)
      fix a b c
      assume e: "C0 = C" "ov0 = ov" "meta0 = meta" "p0 = p" and i: "I chunks cur cid"
        and res: "r = Inr (a, b, c)"
      show "I a b c"
      proof (cases "C \<le> int (length cur)")
        case False
        with body e res have "a = chunks" "b = cur" "c = cid" by simp_all
        with i show ?thesis by simp
      next
        case True
        show ?thesis
        proof (cases "make_chunk meta (py_strip (slice_to cur C)) cid p")
          case (Inl err)
          with body e res True show ?thesis by simp
        next
          case (Inr ch)
          with body e True have "f C ov meta p (chunks @ [ch]) (slice_from cur (C - ov)) (cid + 1) = Some r"
            by simp
          from IH [OF this] step [OF i True Inr] res show ?thesis by simp
        qed
      qed
    qed
  qed
  from gen [OF r] init show ?thesis by simp
qed

lemma chunk_while_well_formed:
  assumes "chunk_while C ov meta p chunks cur cid = Some (Inr (chunks', cur', cid'))"
    and "well_formed_chunks meta chunks" and "cid = int (length chunks)"
  shows "well_formed_chunks meta chunks' \<and> cid' = int (length chunks')"
proof (rule chunk_while_invariant
    [where I = "\<lambda>chunks cur cid. well_formed_chunks meta chunks \<and> cid = int (length chunks)",
     OF assms(1)])
  show "well_formed_chunks meta chunks \<and> cid = int (length chunks)" using assms(2,3) by simp
next
  fix chunks :: "'a chunk list" and cur :: string and cid :: int and ch
  assume "well_formed_chunks meta chunks \<and> cid = int (length chunks)"
    and "make_chunk meta (py_strip (slice_to cur C)) cid p = Inr ch"
  then show "well_formed_chunks meta (chunks @ [ch]) \<and> cid + 1 = int (length (chunks @ [ch]))"
    by (auto intro: well_formed_chunks_snoc)
qed

lemma chunk_pages_well_formed:
  "well_formed_chunks meta chunks \<Longrightarrow> cid = int (length chunks) \<Longrightarrow>
     chunk_pages C ov meta ps (chunks, cur, cid, pn) = Some (Inr (chunks', cur', cid', pn')) \<Longrightarrow>
     well_formed_chunks meta chunks' \<and> cid' = int (length chunks')"
proof (induction ps arbitrary: chunks cur cid pn)
  case Nil
  then show ?case by auto
next
  case (Cons s ps)
  show ?case
  proof (cases "parse_page_section s")
    case None
    with Cons.prems(3) have "chunk_pages C ov meta ps (chunks, cur, cid, pn) = Some (Inr (chunks', cur', cid', pn'))"
      by simp
    from Cons.IH [OF Cons.prems(1,2) this] show ?thesis .
  next
    case (Some a)
    obtain n t where a: "a = (n, t)" by (cases a)
    from Cons.prems(3) Some a obtain c1 u1 i1 where
      w: "chunk_while C ov meta n chunks (cur @ t) cid = Some (Inr (c1, u1, i1))"
      and r: "chunk_pages C ov meta ps (c1, u1, i1, Some n) = Some (Inr (chunks', cur', cid', pn'))"
      by (auto split: option.splits sum.splits)
    from chunk_while_well_formed [OF w Cons.prems(1,2)]
    have "well_formed_chunks meta c1" "i1 = int (length c1)" by simp_all
    from Cons.IH [OF this r] show ?thesis .
  qed
qed

lemma chunk_text_well_formed:
  assumes "chunk_text chunk_size chunk_overlap t meta = Some (Inr chunks)"
  shows "well_formed_chunks meta chunks"
proof -
  have w0: "well_formed_chunks meta []" by (simp add: well_formed_chunks_def)
  from assms obtain c1 u1 i1 pn1 where
    r: "chunk_pages (chunk_size * 4) (chunk_overlap * 4) meta (drop 1 (py_split ''--- Page '' t))
           ([], [], 0, None) = Some (Inr (c1, u1, i1, pn1))"
    by (auto simp: chunk_text_def Let_def split: option.splits sum.splits)
  from chunk_pages_well_formed [OF w0 _ r] have wf: "well_formed_chunks meta c1" and i: "i1 = int (length c1)"
    by simp_all
  show ?thesis
  proof (cases "py_strip u1 = []")
    case True
    with assms r have "chunks = c1" by (simp add: chunk_text_def)
    with wf show ?thesis by simp
  next
    case False
    with assms r obtain q ch where "make_chunk meta (py_strip u1) i1 q = Inr ch" and "chunks = c1 @ [ch]"
      by (auto simp: chunk_text_def split: option.splits sum.splits)
    with wf i show ?thesis by (auto intro: well_formed_chunks_snoc)
  qed
qed

lemma find_sub_decomp: "find_sub sep s = Some (a, b) \<Longrightarrow> s = a @ sep @ b"
proof (induction s arbitrary: a)
  case Nil
  then show ?case by (simp split: if_splits)
next
  case (Cons c cs)
  show ?case
  proof (cases "prefix sep (c # cs)")
    case True
    with Cons.prems have ab: "a = []" "b = drop (length sep) (c # cs)" by simp_all
    from True obtain r where r: "c # cs = sep @ r" by (auto simp: prefix_def)
    then have "drop (length sep) (c # cs) = r" by simp
    with ab r show ?thesis by simp
  next
    case False
    with Cons.prems obtain a' where "find_sub sep cs = Some (a', b)" "a = c # a'"
      by (auto split: option.splits)
    with Cons.IH [of a'] show ?thesis by simp
  qed
qed

lemma no_adjacent_space_appendD:
  assumes "no_adjacent_space (a @ b)"
  shows "no_adjacent_space a" "no_adjacent_space b"
proof -
  have "no_adjacent_space (take (length a) (a @ b))" using assms by (rule no_adjacent_space_take)
  then show "no_adjacent_space a" by simp
  have "no_adjacent_space (drop (length a) (a @ b))" using assms by (rule no_adjacent_space_drop)
  then show "no_adjacent_space b" by simp
qed

lemma no_adjacent_space_junction:
  "no_adjacent_space (a @ b) \<Longrightarrow> a \<noteq> [] \<Longrightarrow> is_space (last a) \<Longrightarrow> b = [] \<or> \<not> is_space (hd b)"
proof (induction a rule: no_adjacent_space.induct)
  case 1
  then show ?case by simp
next
  case (2 c)
  then show ?case by (cases b) auto
next
  case (3 c d cs)
  then show ?case by simp
qed

lemma no_adjacent_space_appendI:
  "no_adjacent_space a \<Longrightarrow> no_adjacent_space b \<Longrightarrow> b = [] \<or> \<not> is_space (hd b)
     \<Longrightarrow> no_adjacent_space (a @ b)"
proof (induction a rule: no_adjacent_space.induct)
  case 1
  then show ?case by simp
next
  case (2 c)
  then show ?case by (cases b) auto
next
  case (3 c d cs)
  then show ?case by simp
qed

lemma clean_piece_split:
  assumes "clean_piece s" and "find_sub ''--- Page '' s = Some (a, b)"
  shows "clean_piece a" "clean_piece b"
proof -
  have s: "s = a @ ''--- Page '' @ b" using assms(2) by (rule find_sub_decomp)
  have na: "no_adjacent_space (a @ ''--- Page '' @ b)" and nl: "NL \<notin> set s"
    and h: "s = [] \<or> \<not> is_space (hd s)"
    using assms(1) s by (auto simp: clean_piece_def)
  have "no_adjacent_space a" using na by (rule no_adjacent_space_appendD)
  moreover have "a = [] \<or> \<not> is_space (hd a)" using h s by (cases a) auto
  ultimately show "clean_piece a" using nl s by (simp add: clean_piece_def)
  have na2: "no_adjacent_space ((a @ ''--- Page '') @ b)" using na by simp
  then have "no_adjacent_space b" by (rule no_adjacent_space_appendD)
  moreover have "b = [] \<or> \<not> is_space (hd b)"
    by (rule no_adjacent_space_junction [OF na2]) (simp_all add: is_space_def)
  ultimately show "clean_piece b" using nl s by (simp add: clean_piece_def)
qed

lemma py_split_clean_pieces:
  "clean_piece s \<Longrightarrow> piece \<in> set (py_split ''--- Page '' s) \<Longrightarrow> clean_piece piece"
proof (induction "''--- Page ''" s rule: py_split.induct)
  case (1 s)
  show ?case
  proof (cases "find_sub ''--- Page '' s")
    case None
    with 1(3) have "piece = s" by (subst (asm) py_split.simps) simp
    with 1(2) show ?thesis by simp
  next
    case (Some x)
    obtain a b where x: "x = (a, b)" by (cases x)
    from 1(3) Some x have "piece = a \<or> piece \<in> set (py_split ''--- Page '' b)"
      by (subst (asm) py_split.simps) simp
    moreover have "clean_piece a" "clean_piece b"
      using clean_piece_split [OF 1(2)] Some x by simp_all
    ultimately show ?thesis using 1(1) [OF Some x [symmetric]] by auto
  qed
qed

lemma find_sub_NL: "NL \<notin> set s \<Longrightarrow> find_sub (''---'' @ [NL]) s = None"
proof (cases "find_sub (''---'' @ [NL]) s")
  case None
  then show ?thesis by simp
next
  case (Some x)
  assume n: "NL \<notin> set s"
  obtain a b where "x = (a, b)" by (cases x)
  with Some have f: "find_sub (''---'' @ [NL]) s = Some (a, b)" by simp
  have "s = a @ (''---'' @ [NL]) @ b" by (rule find_sub_decomp [OF f])
  then have "NL \<in> set s" by simp
  with n show ?thesis by simp
qed

lemma parse_page_section_clean:
  "NL \<notin> set s \<Longrightarrow> parse_page_section s = Some (n, t) \<Longrightarrow> t = s"
  using find_sub_NL [of s]
  by (auto simp: parse_page_section_def py_contains_def split: option.splits)

lemma py_strip_Nil_iff: "py_strip s = [] \<longleftrightarrow> (\<forall>c\<in>set s. is_space c)"
proof
  assume "py_strip s = []"
  then have "dropWhile is_space (rev (dropWhile is_space s)) = []" by (simp add: py_strip_def)
  then have "\<forall>c\<in>set (dropWhile is_space s). is_space c" by (simp add: dropWhile_eq_Nil_conv)
  then have "dropWhile is_space s = []"
    using hd_dropWhile [of is_space s] by (cases "dropWhile is_space s") auto
  then show "\<forall>c\<in>set s. is_space c" by (simp add: dropWhile_eq_Nil_conv)
next
  assume "\<forall>c\<in>set s. is_space c"
  then have d: "dropWhile is_space s = []" by (simp add: dropWhile_eq_Nil_conv)
  show "py_strip s = []" by (simp only: py_strip_def d rev.simps dropWhile.simps)
qed

lemma window_not_blank:
  assumes "no_adjacent_space w" "2 \<le> length w"
  shows "py_strip w \<noteq> []"
proof -
  from assms(2) obtain c d r where w: "w = c # d # r"
    by (cases w; cases "tl w") auto
  with assms(1) have "\<not> is_space c \<or> \<not> is_space d" by simp
  with w have "\<not> (\<forall>x\<in>set w. is_space x)" by auto
  then show ?thesis by (simp add: py_strip_Nil_iff)
qed


lemma chunk_while_not_empty:
  assumes "chunk_while C ov meta p chunks cur cid = Some (Inr (chunks', cur', cid'))"
    and "2 \<le> C" and "texts_not_empty chunks" and "no_adjacent_space cur"
  shows "texts_not_empty chunks' \<and> no_adjacent_space cur'"
proof (rule chunk_while_invariant
    [where I = "\<lambda>chunks cur cid. texts_not_empty chunks \<and> no_adjacent_space cur", OF assms(1)])
  show "texts_not_empty chunks \<and> no_adjacent_space cur" using assms(3,4) by simp
next
  fix chunks :: "'a chunk list" and cur :: string and cid :: int and ch
  assume i: "texts_not_empty chunks \<and> no_adjacent_space cur" and le: "C \<le> int (length cur)"
    and mk: "make_chunk meta (py_strip (slice_to cur C)) cid p = Inr ch"
  have st: "slice_to cur C = take (nat C) cur" using assms(2) by (simp add: slice_to_def)
  have "2 \<le> length (take (nat C) cur)" using le assms(2) by simp
  moreover have "no_adjacent_space (take (nat C) cur)" using i by (simp add: no_adjacent_space_take)
  ultimately have "py_strip (slice_to cur C) \<noteq> []" unfolding st by (intro window_not_blank)
  moreover have "ck_text ch = py_strip (slice_to cur C)"
    using mk by (auto simp: make_chunk_def split: option.splits)
  ultimately have "texts_not_empty (chunks @ [ch])" using i by (simp add: texts_not_empty_def)
  moreover have "no_adjacent_space (slice_from cur (C - ov))"
    using i by (simp add: slice_from_def no_adjacent_space_drop)
  ultimately show "texts_not_empty (chunks @ [ch]) \<and> no_adjacent_space (slice_from cur (C - ov))"
    by simp
qed

text \<open>
  With a chunk size that is not positive the condition of the loop always holds: the loop
  raises or runs forever, and never hands over.
\<close>

lemma chunk_while_never_ends:
  assumes "chunk_while C ov meta p chunks cur cid = Some r" and "C \<le> 0"
  shows "\<exists>e. r = Inl e"
proof -
  have "C \<le> 0 \<longrightarrow> (\<exists>e. r = Inl e)"
    using assms(1)
  proof (rule chunk_while.raw_induct
      [where P = "\<lambda>C ov meta p chunks cur cid r. C \<le> 0 \<longrightarrow> (\<exists>e. r = Inl e)", rotated])
    fix f :: "int \<Rightarrow> int \<Rightarrow> 'a metadata \<Rightarrow> int \<Rightarrow> 'a chunk list \<Rightarrow> string \<Rightarrow> int
       \<Rightarrow> (py_error + 'a chunk list \<times> string \<times> int) option"
    fix C ov :: int and meta :: "'a metadata" and p :: int and chunks :: "'a chunk list"
      and cur :: string and cid :: int and r
    assume IH: "\<And>C ov meta p chunks cur cid r. f C ov meta p chunks cur cid = Some r \<Longrightarrow>
         C \<le> 0 \<longrightarrow> (\<exists>e. r = Inl e)"
    assume body: "(if C \<le> int (length cur)
        then case make_chunk meta (py_strip (slice_to cur C)) cid p of
             Inl e \<Rightarrow> Some (Inl e)
             | Inr ch \<Rightarrow> f C ov meta p (chunks @ [ch]) (slice_from cur (C - ov)) (cid + 1)
        else Some (Inr (chunks, cur, cid))) = Some r"
    show "C \<le> 0 \<longrightarrow> (\<exists>e. r = Inl e)"
    proof
      assume c: "C \<le> 0"
      then have le: "C \<le> int (length cur)" by simp
      show "\<exists>e. r = Inl e"
      proof (cases "make_chunk meta (py_strip (slice_to cur C)) cid p")
        case (Inl err)
        with body le show ?thesis by auto
      next
        case (Inr ch)
        with body le have "f C ov meta p (chunks @ [ch]) (slice_from cur (C - ov)) (cid + 1) = Some r"
          by simp
        from IH [OF this] c show ?thesis by simp
      qed
    qed
  qed
  with assms(2) show ?thesis by simp
qed

lemma chunk_pages_not_empty:
  assumes "2 \<le> C"
  shows "texts_not_empty chunks \<Longrightarrow> no_adjacent_space cur \<Longrightarrow> \<forall>s\<in>set ps. clean_piece s \<Longrightarrow>
     chunk_pages C ov meta ps (chunks, cur, cid, pn) = Some (Inr (chunks', cur', cid', pn')) \<Longrightarrow>
     texts_not_empty chunks'"
proof (induction ps arbitrary: chunks cur cid pn)
  case Nil
  then show ?case by auto
next
  case (Cons s ps)
  have ps: "\<forall>s\<in>set ps. clean_piece s" using Cons.prems(3) by simp
  show ?case
  proof (cases "parse_page_section s")
    case None
    with Cons.prems(4) have "chunk_pages C ov meta ps (chunks, cur, cid, pn) = Some (Inr (chunks', cur', cid', pn'))"
      by simp
    from Cons.IH [OF Cons.prems(1,2) ps this] show ?thesis .
  next
    case (Some a)
    obtain n t where a: "a = (n, t)" by (cases a)
    have cs: "clean_piece s" using Cons.prems(3) by simp
    then have "t = s" using Some a by (auto simp: clean_piece_def dest: parse_page_section_clean)
    with cs Cons.prems(2) have na: "no_adjacent_space (cur @ t)"
      by (auto simp: clean_piece_def intro: no_adjacent_space_appendI)
    from Cons.prems(4) Some a obtain c1 u1 i1 where
      w: "chunk_while C ov meta n chunks (cur @ t) cid = Some (Inr (c1, u1, i1))"
      and r: "chunk_pages C ov meta ps (c1, u1, i1, Some n) = Some (Inr (chunks', cur', cid', pn'))"
      by (auto split: option.splits sum.splits)
    from chunk_while_not_empty [OF w assms Cons.prems(1) na]
    have "texts_not_empty c1" "no_adjacent_space u1" by simp_all
    from Cons.IH [OF this ps r] show ?thesis .
  qed
qed

lemma chunk_pages_never_cut:
  assumes "C \<le> 0"
  shows "chunk_pages C ov meta ps (chunks, cur, cid, pn) = Some (Inr (chunks', cur', cid', pn')) \<Longrightarrow>
     chunks' = chunks \<and> cur' = cur"
proof (induction ps arbitrary: pn)
  case Nil
  then show ?case by simp
next
  case (Cons s ps)
  show ?case
  proof (cases "parse_page_section s")
    case None
    with Cons.prems have "chunk_pages C ov meta ps (chunks, cur, cid, pn) = Some (Inr (chunks', cur', cid', pn'))"
      by simp
    from Cons.IH [OF this] show ?thesis .
  next
    case (Some a)
    obtain n t where a: "a = (n, t)" by (cases a)
    from Cons.prems Some a obtain x where
      w: "chunk_while C ov meta n chunks (cur @ t) cid = Some (Inr x)"
      by (auto split: option.splits sum.splits)
    from chunk_while_never_ends [OF w assms] show ?thesis by simp
  qed
qed

lemma chunk_text_cleaned_not_empty:
  assumes "chunk_text chunk_size chunk_overlap (clean_text s) meta = Some (Inr chunks)"
  shows "texts_not_empty chunks"
proof -
  let ?t = "clean_text s"
  let ?ps = "drop 1 (py_split ''--- Page '' ?t)"
  from assms obtain c1 u1 i1 pn1 where
    r: "chunk_pages (chunk_size * 4) (chunk_overlap * 4) meta ?ps ([], [], 0, None)
          = Some (Inr (c1, u1, i1, pn1))"
    by (auto simp: chunk_text_def Let_def split: option.splits sum.splits)
  have e: "texts_not_empty ([] :: 'a chunk list)" by (simp add: texts_not_empty_def)
  have ne: "texts_not_empty c1"
  proof (cases "chunk_size \<le> 0")
    case True
    then have "chunk_size * 4 \<le> 0" by simp
    from chunk_pages_never_cut [OF this r] e show ?thesis by simp
  next
    case False
    then have h: "2 \<le> chunk_size * 4" by simp
    have "clean_piece ?t"
      using clean_text_props [of s] only_blanks_no_NL [of ?t]
      by (auto simp: clean_piece_def no_outer_space_def)
    then have ps: "\<forall>p\<in>set ?ps. clean_piece p"
      by (auto dest: in_set_dropD py_split_clean_pieces)
    from chunk_pages_not_empty [OF h e _ ps r] show ?thesis by simp
  qed
  show ?thesis
  proof (cases "py_strip u1 = []")
    case True
    with assms r have "chunks = c1" by (simp add: chunk_text_def)
    with ne show ?thesis by simp
  next
    case False
    with assms r obtain q ch where "make_chunk meta (py_strip u1) i1 q = Inr ch" and "chunks = c1 @ [ch]"
      by (auto simp: chunk_text_def split: option.splits sum.splits)
    with ne False show ?thesis by (auto simp: texts_not_empty_def make_chunk_def split: option.splits)
  qed
qed

lemma chunk_while_same_text_loops:
  assumes "chunk_while C ov meta p chunks cur cid = Some r"
  shows "\<not> (C = ov \<and> C \<le> int (length cur) \<and> meta ''book_name'' \<noteq> None \<and> meta ''file_path'' \<noteq> None)"
  using assms
proof (rule chunk_while.raw_induct
    [where P = "\<lambda>C ov meta p chunks cur cid r.
       \<not> (C = ov \<and> C \<le> int (length cur) \<and> meta ''book_name'' \<noteq> None \<and> meta ''file_path'' \<noteq> None)",
     rotated])
  fix f :: "int \<Rightarrow> int \<Rightarrow> 'a metadata \<Rightarrow> int \<Rightarrow> 'a chunk list \<Rightarrow> string \<Rightarrow> int
     \<Rightarrow> (py_error + 'a chunk list \<times> string \<times> int) option"
  fix C ov :: int and meta :: "'a metadata" and p :: int and chunks :: "'a chunk list"
    and cur :: string and cid :: int and r
  assume IH: "\<And>C ov meta p chunks cur cid r. f C ov meta p chunks cur cid = Some r \<Longrightarrow>
       \<not> (C = ov \<and> C \<le> int (length cur) \<and> meta ''book_name'' \<noteq> None \<and> meta ''file_path'' \<noteq> None)"
  assume step: "(if C \<le> int (length cur)
      then case make_chunk meta (py_strip (slice_to cur C)) cid p of
           Inl e \<Rightarrow> Some (Inl e)
           | Inr ch \<Rightarrow> f C ov meta p (chunks @ [ch]) (slice_from cur (C - ov)) (cid + 1)
      else Some (Inr (chunks, cur, cid))) = Some r"
  show "\<not> (C = ov \<and> C \<le> int (length cur) \<and> meta ''book_name'' \<noteq> None \<and> meta ''file_path'' \<noteq> None)"
  proof
    assume a: "C = ov \<and> C \<le> int (length cur) \<and> meta ''book_name'' \<noteq> None \<and> meta ''file_path'' \<noteq> None"
    then obtain ch where ch: "make_chunk meta (py_strip (slice_to cur C)) cid p = Inr ch"
      by (auto simp: make_chunk_def)
    have "slice_from cur (C - ov) = cur" using a by (simp add: slice_from_def)
    with step a ch have "f C ov meta p (chunks @ [ch]) cur (cid + 1) = Some r" by simp
    from IH [OF this] a show False by simp
  qed
qed


lemma chunk_text_example:
  "chunk_text 2 1 ''--- Page 1 --- a bcdefgh'' book_meta =
     Some (Inr [
       \<lparr>ck_text = ''1 --- a'', ck_chunk_id = 0, ck_book_name = ''B'', ck_page = 1, ck_source = ''p.pdf''\<rparr>,
       \<lparr>ck_text = ''- a bcde'', ck_chunk_id = 1, ck_book_name = ''B'', ck_page = 1, ck_source = ''p.pdf''\<rparr>,
       \<lparr>ck_text = ''bcdefgh'', ck_chunk_id = 2, ck_book_name = ''B'', ck_page = 1, ck_source = ''p.pdf''\<rparr>])"
  by code_simp

lemma clean_text_example: "clean_text ''--- Page 1 --- a bcdefgh'' = ''--- Page 1 --- a bcdefgh''"
  by code_simp


text \<open>
  Claim C9.  \<^verbatim>\<open>clean_text\<close> is idempotent: cleaning a cleaned string changes nothing.
  Any output of \<^verbatim>\<open>clean_text\<close> has no two adjacent whitespace characters and neither
  begins nor ends with whitespace.
\<close>

theorem clean_text_idempotent:
  "clean_text (clean_text s) = clean_text s
   \<and> no_adjacent_space (clean_text s) \<and> no_outer_space (clean_text s)"
  by (simp add: clean_text_eq [of "clean_text s"] clean_text_props sub_whitespace_fixed py_strip_fixed)

theorem clean_text_idempotent_witness:
  "clean_text (clean_text (''  a'' @ [NL] @ ''12'' @ [NL, NL, NL, NL] @ ''b   c  ''))
     = ''a 12 b c''"
proof -
  have "clean_text (''  a'' @ [NL] @ ''12'' @ [NL, NL, NL, NL] @ ''b   c  '') = ''a 12 b c''"
    by (simp add: clean_text_def py_strip_def is_space_def is_digit_def)
  then show ?thesis
    using clean_text_idempotent [of "''  a'' @ [NL] @ ''12'' @ [NL, NL, NL, NL] @ ''b   c  ''"]
    by simp
qed

text \<open>
  Claim C1, as amended.  With a chunk size that is positive and an overlap that is not
  negative and smaller than the chunk size, \<^verbatim>\<open>chunk_text\<close> returns, for every text (a
  cleaned one included) and every metadata with the two keys.  The texts of its chunks
  are the windows of the accumulated text, each with its leading and trailing whitespace
  stripped; the last window is left out when it strips to nothing.  Every window but the
  last has exactly \<^verbatim>\<open>chunk_size * 4\<close> characters, every window after the first starts
  with the final \<^verbatim>\<open>chunk_overlap * 4\<close> characters of the window before it, and the
  windows cover the accumulated text.
\<close>

theorem chunk_text_windows:
  assumes "0 < chunk_size" "0 \<le> chunk_overlap" "chunk_overlap < chunk_size"
    and "meta ''book_name'' = Some b" "meta ''file_path'' = Some f"
  shows "\<exists>chunks.
     chunk_text chunk_size chunk_overlap txt meta = Some (Inr chunks) \<and>
     (let width = nat (chunk_size * 4); overlap = nat (chunk_overlap * 4);
          W = sliding_windows width overlap (accumulated_text txt)
      in map ck_text chunks =
           map py_strip (butlast W) @ (if py_strip (last W) = [] then [] else [py_strip (last W)])
         \<and> (\<forall>w\<in>set (butlast W). length w = width)
         \<and> (\<forall>i. Suc i < length W \<longrightarrow> take overlap (W ! Suc i) = drop (width - overlap) (W ! i))
         \<and> concat (map (take (width - overlap)) (butlast W)) @ last W = accumulated_text txt)"
proof -
  let ?C = "chunk_size * 4" and ?O = "chunk_overlap * 4"
  let ?ps = "drop 1 (py_split ''--- Page '' txt)"
  let ?W = "sliding_windows (nat ?C) (nat ?O) (accumulated_text txt)"
  have h: "0 < ?C" "0 \<le> ?O" "?O < ?C" using assms by simp_all
  have o: "nat ?O < nat ?C" using h by linarith
  have "length ([] :: string) < nat ?C" using h by simp
  from chunk_pages_windows [OF h assms(4,5) this, of ?ps "[]" 0 None]
  obtain chunks' pn' where
    r: "chunk_pages ?C ?O meta ?ps ([], [], 0, None) =
          Some (Inr (chunks', last ?W, 0 + int (length (butlast ?W)), pn'))"
    and t: "map ck_text chunks' = map py_strip (butlast ?W)"
    and pn: "pn' = None \<longrightarrow> page_texts ?ps = []"
    by (auto simp: accumulated_text_def)
  have props: "(\<forall>w\<in>set (butlast ?W). length w = nat ?C)
       \<and> (\<forall>i. Suc i < length ?W \<longrightarrow> take (nat ?O) (?W ! Suc i) = drop (nat ?C - nat ?O) (?W ! i))
       \<and> concat (map (take (nat ?C - nat ?O)) (butlast ?W)) @ last ?W = accumulated_text txt"
    using sliding_windows_full [OF o] sliding_windows_overlap [OF o] sliding_windows_cover [OF o]
    by blast
  show ?thesis
  proof (cases "py_strip (last ?W) = []")
    case True
    then have "chunk_text chunk_size chunk_overlap txt meta = Some (Inr chunks')"
      using r by (simp add: chunk_text_def)
    with t True props show ?thesis by (simp add: Let_def)
  next
    case False
    have "pn' \<noteq> None"
    proof
      assume "pn' = None"
      with pn have "accumulated_text txt = []" by (simp add: accumulated_text_def)
      then have "?W = [[]]" using h by (simp add: sliding_windows_short)
      with False show False by (simp add: py_strip_def)
    qed
    then obtain q where q: "pn' = Some q" by blast
    let ?ch = "\<lparr>ck_text = py_strip (last ?W), ck_chunk_id = 0 + int (length (butlast ?W)),
                 ck_book_name = b, ck_page = q, ck_source = f\<rparr>"
    have "chunk_text chunk_size chunk_overlap txt meta = Some (Inr (chunks' @ [?ch]))"
      using False r by (simp add: chunk_text_def q make_chunk_ok [OF assms(4,5)])
    moreover have "map ck_text (chunks' @ [?ch]) = map py_strip (butlast ?W) @ [py_strip (last ?W)]"
      by (simp add: t)
    ultimately show ?thesis using False props by (simp add: Let_def)
  qed
qed

theorem chunk_text_windows_witness:
  "\<exists>chunks. chunk_text 2 1 ''--- Page 1 --- a bcdefgh'' book_meta = Some (Inr chunks) \<and>
      map ck_text chunks = [''1 --- a'', ''- a bcde'', ''bcdefgh'']"
proof -
  have m: "book_meta ''book_name'' = Some ''B''" "book_meta ''file_path'' = Some ''p.pdf''"
    by (simp_all add: book_meta_def)
  have s: "py_strip ''1 --- a '' = ''1 --- a''" "py_strip ''- a bcde'' = ''- a bcde''"
     "py_strip ''bcdefgh'' = ''bcdefgh''" by code_simp+
  show ?thesis
    using chunk_text_windows [of 2 1 book_meta "''B''" "''p.pdf''" "''--- Page 1 --- a bcdefgh''", OF _ _ _ m]
    by (auto simp add: acc1 sw1 s Let_def)
qed


text \<open>
  Claim C1 as stated fails: the text of a chunk is the stripped window, so a chunk that is
  not the last can be shorter than \<^verbatim>\<open>chunk_size * 4\<close>.  Here the text is a cleaned one,
  the chunk size is 2 and the overlap 1; the first window \<^verbatim>\<open>'1 --- a '\<close> ends in a
  space and its chunk has 7 characters, not 8.
\<close>

theorem chunk_text_exact_length_counterexample:
  "clean_text ''--- Page 1 --- a bcdefgh'' = ''--- Page 1 --- a bcdefgh''
   \<and> chunk_text 2 1 ''--- Page 1 --- a bcdefgh'' book_meta =
       Some (Inr [
         \<lparr>ck_text = ''1 --- a'', ck_chunk_id = 0, ck_book_name = ''B'', ck_page = 1, ck_source = ''p.pdf''\<rparr>,
         \<lparr>ck_text = ''- a bcde'', ck_chunk_id = 1, ck_book_name = ''B'', ck_page = 1, ck_source = ''p.pdf''\<rparr>,
         \<lparr>ck_text = ''bcdefgh'', ck_chunk_id = 2, ck_book_name = ''B'', ck_page = 1, ck_source = ''p.pdf''\<rparr>])
   \<and> length ''1 --- a'' \<noteq> 2 * 4"
  by code_simp

text \<open>
  Claim C5.  In \<^verbatim>\<open>process_books_directory\<close>, a book whose processing raises is caught
  and counted as failed, and the batch goes on.  Whatever the files and the state, the
  loop calls \<^verbatim>\<open>process_book\<close> on every file once, in order, the failed ones included
  and none again; when every call returns or raises it ends with the concatenation of
  the chunks of the books that succeeded, \<^verbatim>\<open>failed\<close> raised by the number of books
  that raised and \<^verbatim>\<open>successful\<close> by the number of the others, which together are
  all the files.  The method raises when the directory does not exist or holds no PDF
  file, and otherwise returns that concatenation; it does not return only when the
  processing of some book does not.
\<close>

theorem process_books_directory_batch:
  "process_books_loop env chunk_size chunk_overlap pdf_files (all_chunks, successful, failed, calls) =
     (if list_all (book_ends env chunk_size chunk_overlap) pdf_files
      then Some (all_chunks @ concat (map (book_chunks env chunk_size chunk_overlap) pdf_files),
                 successful + length (filter (\<lambda>f. \<not> book_fails env chunk_size chunk_overlap f) pdf_files),
                 failed + length (filter (book_fails env chunk_size chunk_overlap) pdf_files),
                 calls @ pdf_files)
      else None)
   \<and> length (filter (\<lambda>f. \<not> book_fails env chunk_size chunk_overlap f) pdf_files)
       + length (filter (book_fails env chunk_size chunk_overlap) pdf_files) = length pdf_files
   \<and> process_books_directory env chunk_size chunk_overlap directory =
       (case glob_pdf env (books_dir_of env directory) of
          None \<Rightarrow> Some (Inl (FileNotFoundError (books_dir_of env directory)))
        | Some files \<Rightarrow>
            if files = [] then Some (Inl (ValueError (books_dir_of env directory)))
            else if list_all (book_ends env chunk_size chunk_overlap) files
            then Some (Inr (concat (map (book_chunks env chunk_size chunk_overlap) files)))
            else None)"
proof (intro conjI)
  show "process_books_loop env chunk_size chunk_overlap pdf_files (all_chunks, successful, failed, calls) =
     (if list_all (book_ends env chunk_size chunk_overlap) pdf_files
      then Some (all_chunks @ concat (map (book_chunks env chunk_size chunk_overlap) pdf_files),
                 successful + length (filter (\<lambda>f. \<not> book_fails env chunk_size chunk_overlap f) pdf_files),
                 failed + length (filter (book_fails env chunk_size chunk_overlap) pdf_files),
                 calls @ pdf_files)
      else None)"
    by (rule process_books_loop_result)
  show "length (filter (\<lambda>f. \<not> book_fails env chunk_size chunk_overlap f) pdf_files)
       + length (filter (book_fails env chunk_size chunk_overlap) pdf_files) = length pdf_files"
    using sum_length_filter_compl [of "book_fails env chunk_size chunk_overlap" pdf_files] by simp
  show "process_books_directory env chunk_size chunk_overlap directory =
       (case glob_pdf env (books_dir_of env directory) of
          None \<Rightarrow> Some (Inl (FileNotFoundError (books_dir_of env directory)))
        | Some files \<Rightarrow>
            if files = [] then Some (Inl (ValueError (books_dir_of env directory)))
            else if list_all (book_ends env chunk_size chunk_overlap) files
            then Some (Inr (concat (map (book_chunks env chunk_size chunk_overlap) files)))
            else None)"
    by (simp add: process_books_directory_def Let_def process_books_loop_result split: option.splits)
qed

theorem process_books_directory_batch_witness:
  "process_books_loop two_books 2 1 [''books/a.pdf'', ''books/b.pdf''] ([], 0, 0, []) = Some ([
     \<lparr>ck_text = ''1 --- ab'', ck_chunk_id = 0, ck_book_name = PStr ''b'', ck_page = 1, ck_source = PStr ''books/b.pdf''\<rparr>,
     \<lparr>ck_text = ''- ab cd'', ck_chunk_id = 1, ck_book_name = PStr ''b'', ck_page = 1, ck_source = PStr ''books/b.pdf''\<rparr>],
     1, 1, [''books/a.pdf'', ''books/b.pdf''])
   \<and> process_books_directory two_books 2 1 None = Some (Inr [
     \<lparr>ck_text = ''1 --- ab'', ck_chunk_id = 0, ck_book_name = PStr ''b'', ck_page = 1, ck_source = PStr ''books/b.pdf''\<rparr>,
     \<lparr>ck_text = ''- ab cd'', ck_chunk_id = 1, ck_book_name = PStr ''b'', ck_page = 1, ck_source = PStr ''books/b.pdf''\<rparr>])"
proof -
  have g: "glob_pdf two_books (books_dir_of two_books None) = Some [''books/a.pdf'', ''books/b.pdf'']"
    by (simp add: two_books_def books_dir_of_def)
  show ?thesis
    using process_books_directory_batch [of two_books 2 1 "[''books/a.pdf'', ''books/b.pdf'']" "[]" 0 0 "[]" None]
    by (simp add: g book_chunks_def book_fails_def book_ends_def two_books_first two_books_second)
qed

text \<open>
  Claim C2, as amended.  After any sequence of \<^verbatim>\<open>mark_as_processed\<close> and
  \<^verbatim>\<open>remove_book\<close> calls on a fresh manager, every key of \<^verbatim>\<open>processed_books\<close>, in
  memory and in the saved tracker file, is the name of a file that a
  \<^verbatim>\<open>mark_as_processed\<close> of the sequence was called on, and the entry under it records, in
  its field \<^verbatim>\<open>file_hash\<close>, the MD5 hex digest of the contents that file had at that call.
\<close>

theorem tracker_keys_are_file_names:
  "(\<forall>k e. processed_books (run_ops lib ops (book_manager_init Absent)) k = Some e
       \<longrightarrow> backed lib ops k e)
   \<and> (\<forall>books ts. tracker_file (run_ops lib ops (book_manager_init Absent)) = Saved books ts
       \<longrightarrow> (\<forall>k e. books k = Some e \<longrightarrow> backed lib ops k e))"
  using tracked_run [OF tracked_init, of lib ops] by (simp add: tracked_def)

theorem tracker_keys_are_file_names_witness:
  "backed (libs_with example_md5) one_mark ''a.pdf'' marked_entry"
proof -
  have "processed_books (run_ops (libs_with example_md5) one_mark (book_manager_init Absent)) ''a.pdf''
          = Some marked_entry"
    by (simp add: one_mark_result marked_entry_def example_md5_def)
  with tracker_keys_are_file_names [of "libs_with example_md5" one_mark] show ?thesis by blast
qed


text \<open>
  Claim C2 as stated fails: the keys are file names, not digests.  After one
  \<^verbatim>\<open>mark_as_processed\<close> of \<^verbatim>\<open>books/a.pdf\<close> the only key is \<^verbatim>\<open>a.pdf\<close>, which no
  function with digests of 32 characters, MD5 among them, returns for any contents.
\<close>

theorem tracker_key_not_digest_counterexample:
  "\<not> (\<exists>md5. (\<forall>content. length (md5 content) = 32)
        \<and> (\<forall>k\<in>dom (processed_books (run_ops (libs_with md5) one_mark (book_manager_init Absent))).
              \<exists>content. k = md5 content))"
proof
  assume "\<exists>md5. (\<forall>content. length (md5 content) = 32)
        \<and> (\<forall>k\<in>dom (processed_books (run_ops (libs_with md5) one_mark (book_manager_init Absent))).
              \<exists>content. k = md5 content)"
  then obtain md5 :: "bytes \<Rightarrow> string" where len: "\<forall>content. length (md5 content) = 32"
    and k: "\<forall>k\<in>dom (processed_books (run_ops (libs_with md5) one_mark (book_manager_init Absent))).
              \<exists>content. k = md5 content"
    by blast
  have "''a.pdf'' \<in> dom (processed_books (run_ops (libs_with md5) one_mark (book_manager_init Absent)))"
    by (simp add: one_mark_result)
  with k obtain content where "''a.pdf'' = md5 content" by blast
  then have "length ''a.pdf'' = length (md5 content)" by simp
  with len show False by simp
qed

text \<open>
  Claim C4, as amended.  With MD5's digests of 32 characters, \<^verbatim>\<open>is_processed\<close> returns
  \<^verbatim>\<open>True\<close> exactly when the file's name is in the tracker, the file can be read, and the
  MD5 digest of its contents is the hash stored under that name.  After a
  \<^verbatim>\<open>mark_as_processed\<close> that returned, it returns \<^verbatim>\<open>True\<close> on the unchanged file, and
  \<^verbatim>\<open>False\<close> once the file holds contents with another digest.
\<close>

theorem is_processed_by_hash:
  assumes "\<forall>content. length (md5_hexdigest lib content) = 32"
  shows "((is_processed lib fs books p = Inr True) \<longleftrightarrow>
            (\<exists>e content. books (path_name lib p) = Some e \<and> fs p = Some content
               \<and> e ''file_hash'' = Some (PStr (md5_hexdigest lib content))))
     \<and> (\<forall>ce m n m'. mark_as_processed lib fs ce m p n = Inr m' \<longrightarrow>
           is_processed lib fs (processed_books m') p = Inr True
           \<and> (\<forall>content content'. fs p = Some content
                 \<longrightarrow> md5_hexdigest lib content' \<noteq> md5_hexdigest lib content
                 \<longrightarrow> is_processed lib (fs(p \<mapsto> content')) (processed_books m') p = Inr False))"
proof (intro conjI allI impI)
  show "(is_processed lib fs books p = Inr True) \<longleftrightarrow>
            (\<exists>e content. books (path_name lib p) = Some e \<and> fs p = Some content
               \<and> e ''file_hash'' = Some (PStr (md5_hexdigest lib content)))"
    using assms by (rule is_processed_True_iff)
next
  fix ce m n m'
  assume mk: "mark_as_processed lib fs ce m p n = Inr m'"
  then obtain content where c: "fs p = Some content" using mark_as_processed_needs_file by blast
  from mark_as_processed_books [of fs p content lib ce m n, OF c] mk
  have e: "processed_books m' (path_name lib p) =
          Some [''file_path'' \<mapsto> PStr (path_to_str lib p),
                ''file_hash'' \<mapsto> PStr (md5_hexdigest lib content),
                ''chunk_count'' \<mapsto> PInt n,
                ''processed_date'' \<mapsto> PStr (processed_date ce),
                ''file_size'' \<mapsto> PInt (int (length content))]"
    by auto
  show "is_processed lib fs (processed_books m') p = Inr True"
    by (simp add: is_processed_def e c calculate_file_hash_eq dict_get_def)
  fix content0 content'
  assume "fs p = Some content0" and d: "md5_hexdigest lib content' \<noteq> md5_hexdigest lib content0"
  with c have "content0 = content" by simp
  with d show "is_processed lib (fs(p \<mapsto> content')) (processed_books m') p = Inr False"
    by (simp add: is_processed_def e calculate_file_hash_eq dict_get_def)
qed

theorem is_processed_by_hash_witness:
  "is_processed (libs_with example_md5) fs_a
      (processed_books (run_ops (libs_with example_md5) one_mark (book_manager_init Absent)))
      ''books/a.pdf'' = Inr True
   \<and> is_processed (libs_with example_md5) (fs_a(''books/a.pdf'' \<mapsto> []))
      (processed_books (run_ops (libs_with example_md5) one_mark (book_manager_init Absent)))
      ''books/a.pdf'' = Inr False"
proof -
  have len: "\<forall>content. length (md5_hexdigest (libs_with example_md5) content) = 32"
    by (simp add: libs_with_def example_md5_def)
  have mk: "mark_as_processed (libs_with example_md5) fs_a quiet (book_manager_init Absent) ''books/a.pdf'' 3
     = Inr (run_ops (libs_with example_md5) one_mark (book_manager_init Absent))"
    by (simp add: run_ops_def one_mark_def fs_a_def mark_as_processed_def calculate_file_hash_eq Let_def)
  have d: "md5_hexdigest (libs_with example_md5) [] \<noteq> md5_hexdigest (libs_with example_md5) ''a''"
    by (simp add: libs_with_def example_md5_def)
  have f: "fs_a ''books/a.pdf'' = Some ''a''" by (simp add: fs_a_def)
  from is_processed_by_hash [OF len, of fs_a Map.empty "''books/a.pdf''"] mk d f
  show ?thesis by blast
qed

text \<open>
  Claim C4 as stated fails in its last part: changed bytes need not change the digest.
  A digest of 32 characters takes finitely many values and files are unbounded, so for
  every such function, MD5 included, two different contents share a digest; after the
  first is marked and the file is changed to the second, \<^verbatim>\<open>is_processed\<close> still
  returns \<^verbatim>\<open>True\<close>.
\<close>

theorem is_processed_collision_counterexample:
  "\<not> (\<exists>md5. (\<forall>content. length (md5 content) = 32)
        \<and> (\<forall>content content'. content \<noteq> content' \<longrightarrow>
              (\<forall>m'. mark_as_processed (libs_with md5) [''books/a.pdf'' \<mapsto> content] quiet
                      (book_manager_init Absent) ''books/a.pdf'' 1 = Inr m'
                 \<longrightarrow> is_processed (libs_with md5) [''books/a.pdf'' \<mapsto> content']
                       (processed_books m') ''books/a.pdf'' = Inr False)))"
proof
  assume "\<exists>md5. (\<forall>content. length (md5 content) = 32)
        \<and> (\<forall>content content'. content \<noteq> content' \<longrightarrow>
              (\<forall>m'. mark_as_processed (libs_with md5) [''books/a.pdf'' \<mapsto> content] quiet
                      (book_manager_init Absent) ''books/a.pdf'' 1 = Inr m'
                 \<longrightarrow> is_processed (libs_with md5) [''books/a.pdf'' \<mapsto> content']
                       (processed_books m') ''books/a.pdf'' = Inr False))"
  then obtain md5 :: "bytes \<Rightarrow> string" where len: "\<forall>content. length (md5 content) = 32"
    and cl: "\<And>content content' m'. content \<noteq> content' \<Longrightarrow>
              mark_as_processed (libs_with md5) [''books/a.pdf'' \<mapsto> content] quiet
                      (book_manager_init Absent) ''books/a.pdf'' 1 = Inr m'
              \<Longrightarrow> is_processed (libs_with md5) [''books/a.pdf'' \<mapsto> content']
                       (processed_books m') ''books/a.pdf'' = Inr False"
    by blast
  from digest_collision [OF len] obtain c c' where ne: "c \<noteq> c'" and eq: "md5 c = md5 c'" by blast
  let ?lib = "libs_with md5"
  have f: "[''books/a.pdf'' \<mapsto> c] ''books/a.pdf'' = Some c" by simp
  from mark_as_processed_books [of "[''books/a.pdf'' \<mapsto> c]" "''books/a.pdf''" c ?lib quiet
      "book_manager_init Absent" 1, OF f]
  obtain m' where mk: "mark_as_processed ?lib [''books/a.pdf'' \<mapsto> c] quiet
                      (book_manager_init Absent) ''books/a.pdf'' 1 = Inr m'"
    and e: "processed_books m' (path_name ?lib ''books/a.pdf'') =
          Some [''file_path'' \<mapsto> PStr (path_to_str ?lib ''books/a.pdf''),
                ''file_hash'' \<mapsto> PStr (md5_hexdigest ?lib c),
                ''chunk_count'' \<mapsto> PInt 1,
                ''processed_date'' \<mapsto> PStr (processed_date quiet),
                ''file_size'' \<mapsto> PInt (int (length c))]"
    by blast
  have "is_processed ?lib [''books/a.pdf'' \<mapsto> c'] (processed_books m') ''books/a.pdf'' = Inr True"
    using eq by (simp add: is_processed_def e calculate_file_hash_eq dict_get_def) (simp add: libs_with_def)
  moreover have "is_processed ?lib [''books/a.pdf'' \<mapsto> c'] (processed_books m') ''books/a.pdf'' = Inr False"
    using cl [OF ne mk] .
  ultimately show False by simp
qed


text \<open>
  Claim C6.  When the search of a book-based query returns chunks, and the prompt and the
  answer are produced, \<^verbatim>\<open>query\<close> returns a result in mode \<^verbatim>\<open>book_based\<close> whose sources
  are one per chunk, in order, each with the book name and the page of its chunk's
  metadata (\<^verbatim>\<open>Unknown\<close> and \<^verbatim>\<open>N/A\<close> when the metadata lacks them), and whose citations
  are what \<^verbatim>\<open>format_citations_list\<close> makes of the sources: the lines
  \<^verbatim>\<open>i. **book** (Page p)\<close>, numbered from 1 and joined by newlines, the page part left
  out when the page value is falsy.
\<close>

theorem query_books_citations:
  assumes "similarity_search env question top_k = Inr chunks" and "chunks \<noteq> []"
    and "create_rag_prompt env question chunks = Inr prompt"
    and "generate_response env prompt = Inr answer"
  shows "\<exists>r. fst (query env question False top_k) = Inr r
       \<and> res_answer r = answer \<and> res_mode r = ''book_based''
       \<and> length (res_sources r) = length chunks
       \<and> (\<forall>i<length chunks.
             (res_sources r ! i) ''book'' =
                Some (dict_get (rt_metadata (chunks ! i)) ''book_name'' (PStr ''Unknown''))
           \<and> (res_sources r ! i) ''page'' =
                Some (dict_get (rt_metadata (chunks ! i)) ''page'' (PStr ''N/A'')))
       \<and> res_citations r = format_citations_list (res_sources r)
       \<and> res_citations r =
           py_join [NL]
             (map (\<lambda>i. citation_line (Suc i)
                        (dict_get (rt_metadata (chunks ! i)) ''book_name'' (PStr ''Unknown''))
                        (dict_get (rt_metadata (chunks ! i)) ''page'' (PStr ''N/A'')))
                [0..<length chunks])"
proof -
  let ?r = "\<lparr>res_answer = answer, res_mode = ''book_based'', res_sources = map source_of chunks,
              res_citations = format_citations_list (map source_of chunks)\<rparr>"
  have q: "fst (query env question False top_k) = Inr ?r"
    using assms by (simp add: query_def query_books_def)
  have c: "format_citations_list (map source_of chunks) =
           py_join [NL]
             (map (\<lambda>i. citation_line (Suc i)
                        (dict_get (rt_metadata (chunks ! i)) ''book_name'' (PStr ''Unknown''))
                        (dict_get (rt_metadata (chunks ! i)) ''page'' (PStr ''N/A'')))
                [0..<length chunks])"
  proof -
    have e: "map (\<lambda>j. citation_line (Suc j)
                 (dict_get (map source_of chunks ! j) ''book'' (PStr ''Unknown''))
                 (dict_get (map source_of chunks ! j) ''page'' PNone)) [0..<length chunks]
        = map (\<lambda>i. citation_line (Suc i)
                        (dict_get (rt_metadata (chunks ! i)) ''book_name'' (PStr ''Unknown''))
                        (dict_get (rt_metadata (chunks ! i)) ''page'' (PStr ''N/A'')))
                [0..<length chunks]"
      by (rule map_cong) (simp_all add: source_of_get)
    show ?thesis
      using assms(2) by (simp add: format_citations_list_def citations_loop_eq e)
  qed
  show ?thesis
    by (rule exI [of _ ?r]) (simp add: q c source_of_fields)
qed

theorem query_books_citations_witness:
  "\<exists>r. fst (query small_engine ''heat'' False None) = Inr r
       \<and> length (res_sources r) = 2
       \<and> res_citations r = ''1. **Perry** (Page 12)'' @ [NL] @ ''2. **Smith**''"
proof -
  have 1: "similarity_search small_engine ''heat'' None = Inr two_hits"
    and 2: "two_hits \<noteq> []"
    and 3: "create_rag_prompt small_engine ''heat'' two_hits = Inr ''Context. heat''"
    and 4: "generate_response small_engine ''Context. heat'' = Inr ''Answer to: Context. heat''"
    by (simp_all add: small_engine_def two_hits_def)
  have l: "length two_hits = 2" by (simp add: two_hits_def)
  from query_books_citations [OF 1 2 3 4] show ?thesis
    unfolding heat_lines by (auto simp: l)
qed


text \<open>
  Claim C7.  When the search returns no chunk, \<^verbatim>\<open>query_books\<close> returns the fixed
  sentence and no sources.  The only call it makes is the search: none goes to the
  language model, and the result does not depend on it.
\<close>

theorem query_books_no_chunks:
  assumes "similarity_search env question top_k = Inr []"
  shows "query_books env question top_k = (Inr (no_information, []), [Search question top_k])
       \<and> \<not> list_ex is_llm_call (snd (query_books env question top_k))
       \<and> query_books (env\<lparr>create_rag_prompt := crp, generate_response := gen\<rparr>) question top_k
           = query_books env question top_k"
  using assms by (simp add: query_books_def)

theorem query_books_no_chunks_witness:
  "query_books small_engine ''cold'' None = (Inr (no_information, []), [Search ''cold'' None])"
proof -
  have "similarity_search small_engine ''cold'' None = Inr []"
    by (simp add: small_engine_def)
  from query_books_no_chunks [OF this] show ?thesis by simp
qed


text \<open>
  Claim C3.  In general knowledge mode \<^verbatim>\<open>query\<close> does not depend on the vector store
  and makes no search call.  It returns what the language model's two calls give: their
  exception, or the answer in a result of mode \<^verbatim>\<open>general_knowledge\<close> with no sources and
  the fixed citation string.
\<close>

theorem query_general_knowledge_mode:
  "query (env\<lparr>similarity_search := store\<rparr>) question True top_k = query env question True top_k
   \<and> \<not> list_ex is_search (snd (query env question True top_k))
   \<and> fst (query env question True top_k) =
       (case create_general_knowledge_prompt env question of
          Inl e \<Rightarrow> Inl e
        | Inr prompt \<Rightarrow>
            (case generate_response env prompt of
               Inl e \<Rightarrow> Inl e
             | Inr answer \<Rightarrow>
                 Inr \<lparr>res_answer = answer, res_mode = ''general_knowledge'', res_sources = [],
                      res_citations = ''Based on general knowledge (not from textbooks)''\<rparr>))"
  by (simp add: query_def query_general_knowledge_def split: sum.splits)


theorem query_general_knowledge_mode_witness:
  "fst (query small_engine ''heat'' True None) =
     Inr \<lparr>res_answer = ''Answer to: General. heat'', res_mode = ''general_knowledge'',
          res_sources = [],
          res_citations = ''Based on general knowledge (not from textbooks)''\<rparr>"
  using query_general_knowledge_mode [where env = small_engine and question = "''heat''"
      and top_k = None]
  by (simp add: small_engine_def)

text \<open>
  Claim C10, as amended.  For every input text, every metadata and every chunk size and
  overlap, a list that \<^verbatim>\<open>chunk_text\<close> returns has the id \<open>i\<close> on the chunk at position
  \<open>i\<close>, no whitespace at the ends of any chunk text, and the book name and file path of
  the metadata on every chunk.  For every cleaned input text, the result of
  \<^verbatim>\<open>clean_text\<close>, which is all that \<^verbatim>\<open>process_book\<close> passes, no chunk text of that list
  is empty.  With a positive chunk size and a smaller overlap the method returns or
  raises on every text.
\<close>

theorem chunk_text_invariant:
  "(\<forall>t chunks. chunk_text chunk_size chunk_overlap t meta = Some (Inr chunks)
        \<longrightarrow> well_formed_chunks meta chunks)
   \<and> (\<forall>s chunks. chunk_text chunk_size chunk_overlap (clean_text s) meta = Some (Inr chunks)
        \<longrightarrow> texts_not_empty chunks)
   \<and> (0 < chunk_size \<and> chunk_overlap < chunk_size
        \<longrightarrow> (\<forall>t. \<exists>r. chunk_text chunk_size chunk_overlap t meta = Some r))"
  using chunk_text_well_formed [of chunk_size chunk_overlap _ meta]
    chunk_text_cleaned_not_empty [of chunk_size chunk_overlap _ meta]
    chunk_text_total [of chunk_size chunk_overlap _ meta]
  by blast

theorem chunk_text_invariant_witness:
  "well_formed_chunks book_meta [
       \<lparr>ck_text = ''1 --- a'', ck_chunk_id = 0, ck_book_name = ''B'', ck_page = 1, ck_source = ''p.pdf''\<rparr>,
       \<lparr>ck_text = ''- a bcde'', ck_chunk_id = 1, ck_book_name = ''B'', ck_page = 1, ck_source = ''p.pdf''\<rparr>,
       \<lparr>ck_text = ''bcdefgh'', ck_chunk_id = 2, ck_book_name = ''B'', ck_page = 1, ck_source = ''p.pdf''\<rparr>]
   \<and> texts_not_empty [
       \<lparr>ck_text = ''1 --- a'', ck_chunk_id = 0, ck_book_name = ''B'', ck_page = 1, ck_source = ''p.pdf''\<rparr>,
       \<lparr>ck_text = ''- a bcde'', ck_chunk_id = 1, ck_book_name = ''B'', ck_page = 1, ck_source = ''p.pdf''\<rparr>,
       \<lparr>ck_text = ''bcdefgh'', ck_chunk_id = 2, ck_book_name = ''B'', ck_page = 1, ck_source = ''p.pdf''\<rparr>]
   \<and> (\<exists>r. chunk_text 2 1 ''--- Page 1 --- a bcdefgh'' book_meta = Some r)"
proof -
  have c: "chunk_text 2 1 (clean_text ''--- Page 1 --- a bcdefgh'') book_meta =
     Some (Inr [
       \<lparr>ck_text = ''1 --- a'', ck_chunk_id = 0, ck_book_name = ''B'', ck_page = 1, ck_source = ''p.pdf''\<rparr>,
       \<lparr>ck_text = ''- a bcde'', ck_chunk_id = 1, ck_book_name = ''B'', ck_page = 1, ck_source = ''p.pdf''\<rparr>,
       \<lparr>ck_text = ''bcdefgh'', ck_chunk_id = 2, ck_book_name = ''B'', ck_page = 1, ck_source = ''p.pdf''\<rparr>])"
    by (simp add: clean_text_example chunk_text_example)
  have "(0::int) < 2 \<and> (1::int) < 2" by simp
  with chunk_text_invariant [of 2 1 book_meta] c chunk_text_example show ?thesis by blast
qed


text \<open>
  Claim C10 as stated fails on a text that is not cleaned: a chunk cut inside the loop is
  appended whatever its stripped text, so a window of whitespace gives a chunk whose text
  is empty.  Here the chunk size is 2, the overlap 1, and the page text is eight spaces and
  an \<^verbatim>\<open>x\<close>.
\<close>

theorem chunk_text_empty_chunk_counterexample:
  "chunk_text 2 1 (''--- Page 1 ---'' @ [NL] @ ''        x'') book_meta =
     Some (Inr [
       \<lparr>ck_text = [], ck_chunk_id = 0, ck_book_name = ''B'', ck_page = 1, ck_source = ''p.pdf''\<rparr>,
       \<lparr>ck_text = ''x'', ck_chunk_id = 1, ck_book_name = ''B'', ck_page = 1, ck_source = ''p.pdf''\<rparr>])"
  by code_simp

section \<open>Further properties of \<^verbatim>\<open>chunk_text\<close>\<close>

text \<open>
  With an overlap equal to the chunk size the inner loop never shortens
  \<^verbatim>\<open>current_chunk\<close>: once a page fills a window, \<^verbatim>\<open>chunk_text\<close> does not return.
\<close>

theorem chunk_text_equal_overlap_loops:
  "chunk_text 2 2 ''--- Page 1 --- a bcdefgh'' book_meta = None"
proof -
  have p: "drop 1 (py_split ''--- Page '' ''--- Page 1 --- a bcdefgh'') = [''1 --- a bcdefgh'']"
    by code_simp
  have q: "parse_page_section ''1 --- a bcdefgh'' = Some (1, ''1 --- a bcdefgh'')"
    by code_simp
  have "chunk_while 8 8 book_meta 1 [] ''1 --- a bcdefgh'' 0 = None"
  proof (cases "chunk_while 8 8 book_meta 1 [] ''1 --- a bcdefgh'' 0")
    case None
    then show ?thesis .
  next
    case (Some r)
    from chunk_while_same_text_loops [OF this] show ?thesis by (simp add: book_meta_def)
  qed
  then show ?thesis using p q by (simp add: chunk_text_def)
qed

text \<open>
  Whatever the chunk size: when the window at the head of \<^verbatim>\<open>current_chunk\<close> is all
  whitespace, the loop appends a chunk with an empty text and goes on.
\<close>

lemma chunk_while_blank_window:
  assumes "0 \<le> C" "C \<le> int (length cur)"
    and "\<forall>c\<in>set (take (nat C) cur). is_space c"
    and "meta ''book_name'' = Some b" "meta ''file_path'' = Some f"
  shows "chunk_while C ov meta p chunks cur cid =
     chunk_while C ov meta p
       (chunks @ [\<lparr>ck_text = [], ck_chunk_id = cid, ck_book_name = b, ck_page = p, ck_source = f\<rparr>])
       (slice_from cur (C - ov)) (cid + 1)"
proof -
  have "slice_to cur C = take (nat C) cur" using assms(1) by (simp add: slice_to_def)
  then have "py_strip (slice_to cur C) = []" using assms(3) by (simp add: py_strip_Nil_iff)
  then show ?thesis
    using assms(2) by (subst chunk_while.simps) (simp add: make_chunk_ok [OF assms(4,5)])
qed

end
